theory Spec2Isabelle
  imports Main "HOL-Library.Multiset"
begin

section \<open>Boards\<close>

text \<open>
  A board is the JavaScript array of nine row arrays; a cell holds a digit, 0 meaning
  empty.  Every hand-over of a board in \<^verbatim>\<open>script.js\<close> goes through
  \<^verbatim>\<open>board.map(row => [...row])\<close>, so no two boards share a row.  Boards are
  therefore modelled as values, and a function that writes into its argument returns
  the board it leaves behind.  The carver and the counter are modelled a second time
  over a store of row arrays, where the copies are allocations; the two models are
  shown to agree.
  All reads and writes \<^verbatim>\<open>board[i][j]\<close> of the engine have \<open>i\<close> and \<open>j\<close> below 9; the
  theorems are stated for boards of nine rows of nine cells, where these are in range.
  (On a smaller board JavaScript would read \<^verbatim>\<open>undefined\<close>, raise a \<^verbatim>\<open>TypeError\<close> on a
  missing row, or extend a row on writing; the model is not meant for such boards.)
\<close>

type_synonym board = "nat list list"
type_synonym pos = "nat \<times> nat"

definition wf9 :: "board \<Rightarrow> bool" where
  "wf9 b = (length b = 9 \<and> (\<forall>row \<in> set b. length row = 9))"

text \<open>\<^verbatim>\<open>board[i][j] = v\<close>\<close>

definition set_cell :: "board \<Rightarrow> nat \<Rightarrow> nat \<Rightarrow> nat \<Rightarrow> board" where
  "set_cell b i j v = b[i := (b ! i)[j := v]]"

text \<open>\<^verbatim>\<open>board.map(row => [...row])\<close>\<close>

definition copyBoard :: "board \<Rightarrow> board" where
  "copyBoard b = map (\<lambda>row. map (\<lambda>x. x) row) b"

text \<open>The positions in the order of \<^verbatim>\<open>for i < 9 for j < 9\<close>.\<close>

definition all_cells :: "pos list" where
  "all_cells = List.product [0..<9] [0..<9]"

section \<open>The random source\<close>

text \<open>
  \<^verbatim>\<open>Math.random()\<close> is modelled by a list of draws that is consumed from the
  front; \<^verbatim>\<open>Math.floor(Math.random() * n)\<close> is the next draw reduced modulo \<open>n\<close>,
  and 0 once the list is used up.  Every run of the program is the run on some list.
\<close>

type_synonym rng = "nat list"

definition random_below :: "nat \<Rightarrow> rng \<Rightarrow> nat \<times> rng" where
  "random_below n g = (case g of [] \<Rightarrow> (0, []) | r # g' \<Rightarrow> (r mod n, g'))"

fun shuffle_loop :: "nat \<Rightarrow> 'a list \<Rightarrow> rng \<Rightarrow> 'a list \<times> rng" where
  "shuffle_loop 0 array g = (array, g)"
| "shuffle_loop (Suc k) array g =
     (let i = Suc k;
          (j, g') = random_below (i + 1) g
      in shuffle_loop k (array[i := array ! j, j := array ! i]) g')"

definition shuffle :: "'a list \<Rightarrow> rng \<Rightarrow> 'a list \<times> rng" where
  "shuffle array g = shuffle_loop (length array - 1) array g"

section \<open>The constraint checker\<close>

fun row_clash :: "board \<Rightarrow> nat \<Rightarrow> nat \<Rightarrow> nat \<Rightarrow> nat list \<Rightarrow> bool" where
  "row_clash board num row col [] = False"
| "row_clash board num row col (j # js) =
     (if board ! row ! j = num \<and> col \<noteq> j then True else row_clash board num row col js)"

fun col_clash :: "board \<Rightarrow> nat \<Rightarrow> nat \<Rightarrow> nat \<Rightarrow> nat list \<Rightarrow> bool" where
  "col_clash board num row col [] = False"
| "col_clash board num row col (i # is) =
     (if board ! i ! col = num \<and> row \<noteq> i then True else col_clash board num row col is)"

fun box_row_clash :: "board \<Rightarrow> nat \<Rightarrow> nat \<Rightarrow> nat \<Rightarrow> nat \<Rightarrow> nat list \<Rightarrow> bool" where
  "box_row_clash board num row col i [] = False"
| "box_row_clash board num row col i (j # js) =
     (if board ! i ! j = num \<and> (i \<noteq> row \<or> j \<noteq> col) then True
      else box_row_clash board num row col i js)"

fun box_clash :: "board \<Rightarrow> nat \<Rightarrow> nat \<Rightarrow> nat \<Rightarrow> nat list \<Rightarrow> nat list \<Rightarrow> bool" where
  "box_clash board num row col [] js = False"
| "box_clash board num row col (i # is) js =
     (if box_row_clash board num row col i js then True
      else box_clash board num row col is js)"

definition isValidPlacement :: "board \<Rightarrow> nat \<Rightarrow> pos \<Rightarrow> bool" where
  "isValidPlacement board num p =
     (case p of (row, col) \<Rightarrow>
        if row_clash board num row col [0..<9] then False
        else if col_clash board num row col [0..<9] then False
        else
          let boxX = col div 3;
              boxY = row div 3
          in if box_clash board num row col
                  [boxY * 3..<boxY * 3 + 3] [boxX * 3..<boxX * 3 + 3]
             then False
             else True)"

definition findEmptyCell :: "board \<Rightarrow> pos option" where
  "findEmptyCell board = find (\<lambda>(i, j). board ! i ! j = 0) all_cells"

section \<open>The solved-grid generator\<close>

text \<open>
  The recursion of \<^verbatim>\<open>generateSolvedSudokuGrid\<close> goes through its loop over the
  shuffled candidates, on the board the inner call leaves behind.  The first argument
  bounds the depth of the recursion; \<open>None\<close> means the bound was reached.  The result
  carries the returned flag, the board as the call leaves it, and the rest of the
  random source.
\<close>

fun generateSolvedSudokuGrid :: "nat \<Rightarrow> board \<Rightarrow> rng \<Rightarrow> (bool \<times> board \<times> rng) option"
and generate_loop ::
  "nat \<Rightarrow> nat \<Rightarrow> nat \<Rightarrow> nat list \<Rightarrow> board \<Rightarrow> rng \<Rightarrow> (bool \<times> board \<times> rng) option"
where
  "generateSolvedSudokuGrid 0 board g = None"
| "generateSolvedSudokuGrid (Suc fuel) board g =
     (case findEmptyCell board of
        None \<Rightarrow> Some (True, board, g)
      | Some (row, col) \<Rightarrow>
          (case shuffle [1, 2, 3, 4, 5, 6, 7, 8, 9] g of
             (numbers, g') \<Rightarrow> generate_loop fuel row col numbers board g'))"
| "generate_loop fuel row col [] board g = Some (False, board, g)"
| "generate_loop fuel row col (num # nums) board g =
     (if isValidPlacement board num (row, col) then
        (case generateSolvedSudokuGrid fuel (set_cell board row col num) g of
           None \<Rightarrow> None
         | Some (ok, board', g') \<Rightarrow>
             if ok then Some (True, board', g')
             else generate_loop fuel row col nums (set_cell board' row col 0) g')
      else generate_loop fuel row col nums board g)"

section \<open>The solution counter\<close>

text \<open>
  \<^verbatim>\<open>solve\<close> is the closure inside \<^verbatim>\<open>countSolutions\<close>; the board and the counter
  \<^verbatim>\<open>count\<close> (here \<open>cnt\<close>) it shares with the enclosing call are passed in and returned.
  As in the generator, the first argument bounds the depth of the recursion.
\<close>

fun solve :: "nat \<Rightarrow> board \<Rightarrow> nat \<Rightarrow> (board \<times> nat) option"
and solve_loop ::
  "nat \<Rightarrow> nat \<Rightarrow> nat \<Rightarrow> nat list \<Rightarrow> board \<Rightarrow> nat \<Rightarrow> (board \<times> nat) option"
where
  "solve 0 board cnt = None"
| "solve (Suc fuel) board cnt =
     (case findEmptyCell board of
        None \<Rightarrow> Some (board, cnt + 1)
      | Some (row, col) \<Rightarrow> solve_loop fuel row col [1..<10] board cnt)"
| "solve_loop fuel row col [] board cnt = Some (board, cnt)"
| "solve_loop fuel row col (num # nums) board cnt =
     (if isValidPlacement board num (row, col) then
        (case solve fuel (set_cell board row col num) cnt of
           None \<Rightarrow> None
         | Some (board', cnt') \<Rightarrow>
             if cnt' > 1 then Some (board', cnt')
             else solve_loop fuel row col nums (set_cell board' row col 0) cnt')
      else solve_loop fuel row col nums board cnt)"

text \<open>The result is the returned count and the board as the call leaves it.\<close>

definition countSolutions :: "nat \<Rightarrow> board \<Rightarrow> (nat \<times> board) option" where
  "countSolutions fuel board =
     (case solve fuel board 0 of
        None \<Rightarrow> None
      | Some (board', cnt) \<Rightarrow> Some (cnt, board'))"

section \<open>The puzzle carver\<close>

fun carve_loop :: "nat \<Rightarrow> nat \<Rightarrow> pos list \<Rightarrow> board \<Rightarrow> nat \<Rightarrow> board option" where
  "carve_loop fuel holes [] puzzle removed = Some puzzle"
| "carve_loop fuel holes ((row, col) # cells) puzzle removed =
     (if removed \<ge> holes then Some puzzle
      else
        let temp = puzzle ! row ! col;
            puzzle1 = set_cell puzzle row col 0
        in (case countSolutions fuel (copyBoard puzzle1) of
              None \<Rightarrow> None
            | Some (solutionCount, probed) \<Rightarrow>
                if solutionCount \<noteq> 1
                then carve_loop fuel holes cells (set_cell puzzle1 row col temp) removed
                else carve_loop fuel holes cells puzzle1 (removed + 1)))"

definition createPuzzle :: "nat \<Rightarrow> board \<Rightarrow> nat \<Rightarrow> rng \<Rightarrow> (board \<times> rng) option" where
  "createPuzzle fuel board holes g =
     (let puzzle = copyBoard board
      in case shuffle all_cells g of
           (cells, g') \<Rightarrow>
             (case carve_loop fuel holes cells puzzle 0 of
                None \<Rightarrow> None
              | Some puzzle' \<Rightarrow> Some (puzzle', g')))"

section \<open>The carver and the counter over a store\<close>

text \<open>
  Here the row arrays are objects: the store is the list of all row arrays, an address
  is an index into it, and a board is the list of the addresses of its nine rows (the
  outer arrays are never written to after they are built).  \<^verbatim>\<open>board[i][j] = v\<close>
  updates the store at the address of row \<open>i\<close>, and \<^verbatim>\<open>board.map(row => [...row])\<close>
  allocates nine new rows.  \<^verbatim>\<open>findEmptyCell\<close> and \<^verbatim>\<open>isValidPlacement\<close> only read; they
  are applied to the board read from the store.
\<close>

type_synonym addr = nat

type_synonym store = "nat list list"

definition read_board :: "store \<Rightarrow> addr list \<Rightarrow> board" where
  "read_board h refs = map (\<lambda>a. h ! a) refs"

definition write_cell :: "store \<Rightarrow> addr list \<Rightarrow> nat \<Rightarrow> nat \<Rightarrow> nat \<Rightarrow> store" where
  "write_cell h refs i j v = h[refs ! i := (h ! (refs ! i))[j := v]]"

fun copyBoard_h :: "store \<Rightarrow> addr list \<Rightarrow> addr list \<times> store" where
  "copyBoard_h h [] = ([], h)"
| "copyBoard_h h (a # as) =
     (case copyBoard_h (h @ [map (\<lambda>x. x) (h ! a)]) as of
        (bs, h') \<Rightarrow> (length h # bs, h'))"

fun solve_h :: "nat \<Rightarrow> addr list \<Rightarrow> nat \<Rightarrow> store \<Rightarrow> (store \<times> nat) option"
and solve_loop_h ::
  "nat \<Rightarrow> nat \<Rightarrow> nat \<Rightarrow> nat list \<Rightarrow> addr list \<Rightarrow> nat \<Rightarrow> store \<Rightarrow> (store \<times> nat) option"
where
  "solve_h 0 board cnt h = None"
| "solve_h (Suc fuel) board cnt h =
     (case findEmptyCell (read_board h board) of
        None \<Rightarrow> Some (h, cnt + 1)
      | Some (row, col) \<Rightarrow> solve_loop_h fuel row col [1..<10] board cnt h)"
| "solve_loop_h fuel row col [] board cnt h = Some (h, cnt)"
| "solve_loop_h fuel row col (num # nums) board cnt h =
     (if isValidPlacement (read_board h board) num (row, col) then
        (case solve_h fuel board cnt (write_cell h board row col num) of
           None \<Rightarrow> None
         | Some (h', cnt') \<Rightarrow>
             if cnt' > 1 then Some (h', cnt')
             else solve_loop_h fuel row col nums board cnt' (write_cell h' board row col 0))
      else solve_loop_h fuel row col nums board cnt h)"

definition countSolutions_h :: "nat \<Rightarrow> addr list \<Rightarrow> store \<Rightarrow> (nat \<times> store) option" where
  "countSolutions_h fuel board h =
     (case solve_h fuel board 0 h of
        None \<Rightarrow> None
      | Some (h', cnt) \<Rightarrow> Some (cnt, h'))"

text \<open>\<^verbatim>\<open>countSolutions(puzzle.map(r => [...r]))\<close>, the probe of the carver.\<close>

definition probe_h :: "nat \<Rightarrow> addr list \<Rightarrow> store \<Rightarrow> (nat \<times> store) option" where
  "probe_h fuel puzzle h =
     (case copyBoard_h h puzzle of (fresh, h') \<Rightarrow> countSolutions_h fuel fresh h')"

fun carve_loop_h ::
  "nat \<Rightarrow> nat \<Rightarrow> pos list \<Rightarrow> addr list \<Rightarrow> nat \<Rightarrow> store \<Rightarrow> store option" where
  "carve_loop_h fuel holes [] puzzle removed h = Some h"
| "carve_loop_h fuel holes ((row, col) # cells) puzzle removed h =
     (if removed \<ge> holes then Some h
      else
        let temp = h ! (puzzle ! row) ! col;
            h1 = write_cell h puzzle row col 0
        in (case probe_h fuel puzzle h1 of
              None \<Rightarrow> None
            | Some (solutionCount, h2) \<Rightarrow>
                if solutionCount \<noteq> 1
                then carve_loop_h fuel holes cells puzzle removed (write_cell h2 puzzle row col temp)
                else carve_loop_h fuel holes cells puzzle (removed + 1) h2))"

definition createPuzzle_h ::
  "nat \<Rightarrow> addr list \<Rightarrow> nat \<Rightarrow> rng \<Rightarrow> store \<Rightarrow> (addr list \<times> rng \<times> store) option" where
  "createPuzzle_h fuel board holes g h =
     (case copyBoard_h h board of
        (puzzle, h1) \<Rightarrow>
          (case shuffle all_cells g of
             (cells, g') \<Rightarrow>
               (case carve_loop_h fuel holes cells puzzle 0 h1 of
                  None \<Rightarrow> None
                | Some h2 \<Rightarrow> Some (puzzle, g', h2))))"

text \<open>A board in the store: nine different rows, all allocated.\<close>

definition board_at :: "store \<Rightarrow> addr list \<Rightarrow> bool" where
  "board_at h refs = (length refs = 9 \<and> distinct refs \<and> (\<forall>a \<in> set refs. a < length h))"

text \<open>
  A run over the store agrees with a run over the value: both fail, or both return the
  same count, the board in the store is the board returned, and no other row of the
  store has changed.
\<close>

definition agree_run ::
  "store \<Rightarrow> addr list \<Rightarrow> (board \<times> nat) option \<Rightarrow> (store \<times> nat) option \<Rightarrow> bool" where
  "agree_run h refs vres hres =
     (case vres of
        None \<Rightarrow> hres = None
      | Some (b', n) \<Rightarrow>
          (\<exists>h'. hres = Some (h', n) \<and> read_board h' refs = b' \<and> length h' = length h \<and>
                (\<forall>a < length h. a \<notin> set refs \<longrightarrow> h' ! a = h ! a)))"

section \<open>The game session\<close>

text \<open>
  The global variables of \<^verbatim>\<open>script.js\<close>.  The status line of the page is kept as
  the text and the success flag last passed to \<^verbatim>\<open>setStatusMessage\<close>.
\<close>

record session =
  solvedBoard :: board
  puzzleBoard :: board
  initialPuzzle :: board
  selectedCell :: "pos option"
  gameActive :: bool
  statusMessage :: "string \<times> bool"

text \<open>
  The table has the four keys below.  A lookup of any other name is \<open>None\<close>, the
  \<^verbatim>\<open>undefined\<close> of the code; the names an object inherits from \<^verbatim>\<open>Object.prototype\<close>
  (such as \<^verbatim>\<open>constructor\<close>) are not modelled.
\<close>

definition DIFFICULTY_LEVELS :: "string \<rightharpoonup> nat" where
  "DIFFICULTY_LEVELS =
     [''easy'' \<mapsto> 30, ''medium'' \<mapsto> 40, ''hard'' \<mapsto> 50, ''expert'' \<mapsto> 60]"

definition setStatusMessage :: "string \<Rightarrow> bool \<Rightarrow> session \<Rightarrow> session" where
  "setStatusMessage message isSuccess s = s\<lparr>statusMessage := (message, isSuccess)\<rparr>"

text \<open>
  Of \<^verbatim>\<open>renderBoard\<close> the model keeps the cells that receive the class
  \<^verbatim>\<open>incorrect\<close>: the user cells whose value fails \<^verbatim>\<open>isValidPlacement\<close>.
\<close>

definition renderBoard_incorrect :: "session \<Rightarrow> board \<Rightarrow> pos list" where
  "renderBoard_incorrect s board =
     filter (\<lambda>(i, j). \<not> (initialPuzzle s ! i ! j \<noteq> 0) \<and> board ! i ! j \<noteq> 0
                \<and> \<not> isValidPlacement board (board ! i ! j) (i, j)) all_cells"

text \<open>
  \<^verbatim>\<open>checkWinCondition\<close> returns from inside its loops at the first cell that is empty
  or differs from the solution; otherwise it ends the game.
\<close>

definition checkWinCondition :: "session \<Rightarrow> session" where
  "checkWinCondition s =
     (case find (\<lambda>(i, j). puzzleBoard s ! i ! j = 0 \<or> puzzleBoard s ! i ! j \<noteq> solvedBoard s ! i ! j)
             all_cells of
        Some p \<Rightarrow> s
      | None \<Rightarrow>
          setStatusMessage ''Congratulations! You solved the puzzle!'' True
            (s\<lparr>gameActive := False\<rparr>))"

fun checkAnswers_loop :: "session \<Rightarrow> pos list \<Rightarrow> bool \<Rightarrow> bool" where
  "checkAnswers_loop s [] hasErrors = hasErrors"
| "checkAnswers_loop s ((i, j) # cells) hasErrors =
     checkAnswers_loop s cells
       (if initialPuzzle s ! i ! j = 0 \<and> puzzleBoard s ! i ! j \<noteq> 0
        then (if puzzleBoard s ! i ! j \<noteq> solvedBoard s ! i ! j then True else hasErrors)
        else hasErrors)"

definition checkAnswers :: "session \<Rightarrow> session" where
  "checkAnswers s =
     (let hasErrors = checkAnswers_loop s all_cells False
      in if hasErrors
         then setStatusMessage ''Some answers are incorrect. Keep trying!'' False s
         else setStatusMessage ''All your answers are correct so far! Keep going!'' True s)"


text \<open>
  \<^verbatim>\<open>initializeGame(holes = 40)\<close>: an absent argument is \<open>None\<close>.  The flag returned by
  the generator is not looked at.
\<close>

definition initializeGame :: "nat \<Rightarrow> nat option \<Rightarrow> rng \<Rightarrow> session \<Rightarrow> (session \<times> rng) option" where
  "initializeGame fuel holes_arg g s =
     (let holes = (case holes_arg of None \<Rightarrow> 40 | Some h \<Rightarrow> h);
          baseBoard = replicate 9 (replicate 9 0)
      in case generateSolvedSudokuGrid fuel baseBoard g of
           None \<Rightarrow> None
         | Some (ok, baseBoard', g1) \<Rightarrow>
             let solved = copyBoard baseBoard'
             in (case createPuzzle fuel solved holes g1 of
                   None \<Rightarrow> None
                 | Some (puzzle, g2) \<Rightarrow>
                     Some (s\<lparr>solvedBoard := solved, puzzleBoard := puzzle,
                              initialPuzzle := copyBoard puzzle,
                              selectedCell := None, gameActive := True\<rparr>, g2)))"

definition startNewGame :: "nat \<Rightarrow> string \<Rightarrow> rng \<Rightarrow> session \<Rightarrow> (session \<times> rng) option" where
  "startNewGame fuel difficulty g s =
     (case initializeGame fuel (DIFFICULTY_LEVELS difficulty) g s of
        None \<Rightarrow> None
      | Some (s', g') \<Rightarrow>
          Some (setStatusMessage (''New '' @ difficulty @ '' game started!'') True s', g'))"

subsection \<open>Input handlers\<close>

definition handleCellClick :: "pos \<Rightarrow> session \<Rightarrow> session" where
  "handleCellClick p s = s\<lparr>selectedCell := Some p\<rparr>"

text \<open>\<^verbatim>\<open>renderBoard\<close> attaches the click listener to the cells that are not given.\<close>

definition cell_click :: "pos \<Rightarrow> session \<Rightarrow> session" where
  "cell_click p s =
     (case p of (i, j) \<Rightarrow>
        if initialPuzzle s ! i ! j \<noteq> 0 then s
        else if gameActive s then handleCellClick (i, j) s else s)"

text \<open>
  \<^verbatim>\<open>key >= '1' && key <= '9'\<close> compares strings: the first holds when the key is not
  empty and its first character is at least \<^verbatim>\<open>'1'\<close>, the second when the key is empty,
  or its first character is below \<^verbatim>\<open>'9'\<close>, or it is the string \<^verbatim>\<open>'9'\<close> itself.
  \<^verbatim>\<open>parseInt\<close> then reads the leading decimal digits; the number is kept exact here,
  where JavaScript rounds it to a double (keys of more than fifteen digits, which no
  keyboard sends).
\<close>

definition key_ge_1 :: "string \<Rightarrow> bool" where
  "key_ge_1 key = (case key of [] \<Rightarrow> False | ch # rest \<Rightarrow> (of_char ch :: nat) \<ge> 49)"

definition key_le_9 :: "string \<Rightarrow> bool" where
  "key_le_9 key =
     (case key of [] \<Rightarrow> True
      | ch # rest \<Rightarrow> (of_char ch :: nat) < 57 \<or> ((of_char ch :: nat) = 57 \<and> rest = []))"

fun parseInt_digits :: "nat \<Rightarrow> string \<Rightarrow> nat" where
  "parseInt_digits acc [] = acc"
| "parseInt_digits acc (ch # rest) =
     (if 48 \<le> (of_char ch :: nat) \<and> (of_char ch :: nat) \<le> 57
      then parseInt_digits (10 * acc + ((of_char ch :: nat) - 48)) rest
      else acc)"

definition keydown :: "string \<Rightarrow> session \<Rightarrow> session" where
  "keydown key s =
     (case selectedCell s of
        None \<Rightarrow> s
      | Some (row, col) \<Rightarrow>
          if \<not> gameActive s then s
          else if initialPuzzle s ! row ! col \<noteq> 0 then s
          else
            (case (if key_ge_1 key \<and> key_le_9 key then Some (parseInt_digits 0 key)
                   else if key = ''Backspace'' \<or> key = ''Delete'' \<or> key = ''0'' then Some 0
                   else None) of
               None \<Rightarrow> s
             | Some num \<Rightarrow>
                 checkWinCondition (s\<lparr>puzzleBoard := set_cell (puzzleBoard s) row col num\<rparr>)))"

text \<open>The number buttons; \<open>v\<close> is \<^verbatim>\<open>parseInt(this.dataset.value)\<close>.\<close>

definition num_btn_click :: "nat \<Rightarrow> session \<Rightarrow> session" where
  "num_btn_click v s =
     (case selectedCell s of
        None \<Rightarrow> s
      | Some (row, col) \<Rightarrow>
          if \<not> gameActive s then s
          else if initialPuzzle s ! row ! col \<noteq> 0 then s
          else checkWinCondition (s\<lparr>puzzleBoard := set_cell (puzzleBoard s) row col v\<rparr>))"

definition clear_btn_click :: "session \<Rightarrow> session" where
  "clear_btn_click s =
     (case selectedCell s of
        None \<Rightarrow> s
      | Some (row, col) \<Rightarrow>
          if \<not> gameActive s then s
          else if initialPuzzle s ! row ! col \<noteq> 0 then s
          else s\<lparr>puzzleBoard := set_cell (puzzleBoard s) row col 0\<rparr>)"

datatype event = KeyDown string | NumBtn nat | ClearBtn | CellClick pos

fun handle_event :: "session \<Rightarrow> event \<Rightarrow> session" where
  "handle_event s (KeyDown key) = keydown key s"
| "handle_event s (NumBtn v) = num_btn_click v s"
| "handle_event s ClearBtn = clear_btn_click s"
| "handle_event s (CellClick p) = cell_click p s"

section \<open>The vocabulary of the specification\<close>

text \<open>The cell of a board at a position, and the number of empty cells of a board.\<close>

definition cell :: "board \<Rightarrow> pos \<Rightarrow> nat" where
  "cell b p = b ! fst p ! snd p"

definition zeros :: "board \<Rightarrow> nat" where
  "zeros b = length (filter (\<lambda>p. cell b p = 0) all_cells)"

text \<open>
  The value occurs elsewhere in the row, the column or the 3x3 box of the position:
  the condition under which the specification wants \<^verbatim>\<open>isValidPlacement\<close> to be false.
\<close>

definition occurs_elsewhere :: "board \<Rightarrow> nat \<Rightarrow> pos \<Rightarrow> bool" where
  "occurs_elsewhere b v p =
     (case p of (r, c) \<Rightarrow>
        (\<exists>j \<in> {0..<9}. j \<noteq> c \<and> b ! r ! j = v) \<or>
        (\<exists>i \<in> {0..<9}. i \<noteq> r \<and> b ! i ! c = v) \<or>
        (\<exists>i \<in> {r div 3 * 3..r div 3 * 3 + 2}. \<exists>j \<in> {c div 3 * 3..c div 3 * 3 + 2}.
            (i, j) \<noteq> (r, c) \<and> b ! i ! j = v))"

text \<open>Two different positions that share a row, a column or a box.\<close>

definition peers :: "pos \<Rightarrow> pos \<Rightarrow> bool" where
  "peers p q = (p \<noteq> q \<and> (fst p = fst q \<or> snd p = snd q \<or>
      (fst p div 3 = fst q div 3 \<and> snd p div 3 = snd q div 3)))"

text \<open>
  A solved grid: every cell is in 1..9, and every row, every column and every 3x3 box
  contains each of 1..9 exactly once.
\<close>

definition row_of :: "board \<Rightarrow> nat \<Rightarrow> nat list" where
  "row_of b i = map (\<lambda>j. b ! i ! j) [0..<9]"

definition col_of :: "board \<Rightarrow> nat \<Rightarrow> nat list" where
  "col_of b j = map (\<lambda>i. b ! i ! j) [0..<9]"

definition box_of :: "board \<Rightarrow> nat \<Rightarrow> nat list" where
  "box_of b k =
     map (\<lambda>(i, j). b ! (k div 3 * 3 + i) ! (k mod 3 * 3 + j)) (List.product [0..<3] [0..<3])"

definition once_each :: "nat list \<Rightarrow> bool" where
  "once_each u = (\<forall>v \<in> set [1..<10]. count_list u v = 1)"

definition solved_grid :: "board \<Rightarrow> bool" where
  "solved_grid b =
     (wf9 b \<and>
      (\<forall>p \<in> set all_cells. 1 \<le> cell b p \<and> cell b p \<le> 9) \<and>
      (\<forall>k \<in> set [0..<9]. once_each (row_of b k) \<and> once_each (col_of b k) \<and> once_each (box_of b k)))"

text \<open>
  A board whose non-zero entries satisfy the Sudoku constraints: nine rows of nine
  digits, no non-zero digit twice in a row, a column or a box.
\<close>

definition consistent :: "board \<Rightarrow> bool" where
  "consistent b =
     (\<forall>p \<in> set all_cells. \<forall>q \<in> set all_cells.
        peers p q \<and> cell b p \<noteq> 0 \<longrightarrow> cell b p \<noteq> cell b q)"

definition valid_partial :: "board \<Rightarrow> bool" where
  "valid_partial b = (wf9 b \<and> (\<forall>p \<in> set all_cells. cell b p \<le> 9) \<and> consistent b)"

text \<open>The completions of a board: the solved grids that keep its non-zero cells.\<close>

definition extends :: "board \<Rightarrow> board \<Rightarrow> bool" where
  "extends b s = (\<forall>p \<in> set all_cells. cell b p \<noteq> 0 \<longrightarrow> cell s p = cell b p)"

definition completions :: "board \<Rightarrow> board set" where
  "completions b = {s. solved_grid s \<and> extends b s}"

text \<open>Every non-zero cell of \<open>P\<close> is the cell of \<open>G\<close>.\<close>

definition agrees :: "board \<Rightarrow> board \<Rightarrow> bool" where
  "agrees P G = (\<forall>r < 9. \<forall>c < 9. P ! r ! c \<noteq> 0 \<longrightarrow> P ! r ! c = G ! r ! c)"

text \<open>The positions of the rows, columns and boxes, used in the proofs.\<close>

definition row_cells :: "nat \<Rightarrow> pos list" where
  "row_cells k = map (\<lambda>j. (k, j)) [0..<9]"

definition col_cells :: "nat \<Rightarrow> pos list" where
  "col_cells k = map (\<lambda>i. (i, k)) [0..<9]"

definition box_cells :: "nat \<Rightarrow> pos list" where
  "box_cells k = map (\<lambda>(i, j). (k div 3 * 3 + i, k mod 3 * 3 + j)) (List.product [0..<3] [0..<3])"

definition is_unit :: "pos list \<Rightarrow> bool" where
  "is_unit u = (length u = 9 \<and> distinct u \<and> set u \<subseteq> set all_cells \<and>
      (\<forall>p \<in> set u. \<forall>q \<in> set u. p \<noteq> q \<longrightarrow> peers p q))"

text \<open>
  What a call of \<^verbatim>\<open>solve\<close> on board \<open>b\<close> with counter \<open>cnt\<close> achieves, \<open>S\<close> being the
  completions in the part of the search space the call covers: it returns, the counter
  does not decrease, the board is restored unless the counter has passed 1, and on a
  valid board the counter has grown by the size of \<open>S\<close>, capped at 2, the board being
  left at a completion once the counter has passed 1.
\<close>

definition solve_post :: "board \<Rightarrow> nat \<Rightarrow> board set \<Rightarrow> (board \<times> nat) option \<Rightarrow> bool" where
  "solve_post b cnt S res =
     (\<exists>b' n. res = Some (b', n) \<and> wf9 b' \<and> cnt \<le> n \<and> (n \<le> 1 \<longrightarrow> b' = b) \<and>
        (valid_partial b \<longrightarrow> cnt \<le> 1 \<longrightarrow>
           n = min 2 (cnt + card S) \<and> (1 < n \<longrightarrow> b' \<in> completions b)))"

text \<open>
  The same for \<^verbatim>\<open>generateSolvedSudokuGrid\<close>: it returns; on false the board is
  restored and, the board being valid, \<open>S\<close> is empty; on true the board is left at a
  completion of a valid board.
\<close>

definition generate_post :: "board \<Rightarrow> board set \<Rightarrow> (bool \<times> board \<times> rng) option \<Rightarrow> bool" where
  "generate_post b S res =
     (\<exists>ok b' g'. res = Some (ok, b', g') \<and> wf9 b' \<and> (\<not> ok \<longrightarrow> b' = b) \<and>
        (valid_partial b \<longrightarrow> (ok \<longrightarrow> b' \<in> completions b) \<and> (\<not> ok \<longrightarrow> S = {})))"

text \<open>
  The positions the specification's \<^verbatim>\<open>checkErrors\<close> speaks of: user cells that are
  filled and differ from the solution.
\<close>

definition error_positions :: "session \<Rightarrow> pos set" where
  "error_positions s =
     set (filter (\<lambda>(r, c). initialPuzzle s ! r ! c = 0 \<and> puzzleBoard s ! r ! c \<noteq> 0
                    \<and> puzzleBoard s ! r ! c \<noteq> solvedBoard s ! r ! c) all_cells)"

subsection \<open>A concrete game\<close>

text \<open>
  A solved grid, the puzzle that leaves out its cells (0,0), (0,1) and (3,0), and the
  session that starts from them.
\<close>

definition example_grid :: board where
  "example_grid =
    [[1, 2, 3, 4, 5, 6, 7, 8, 9],
     [4, 5, 6, 7, 8, 9, 1, 2, 3],
     [7, 8, 9, 1, 2, 3, 4, 5, 6],
     [2, 3, 4, 5, 6, 7, 8, 9, 1],
     [5, 6, 7, 8, 9, 1, 2, 3, 4],
     [8, 9, 1, 2, 3, 4, 5, 6, 7],
     [3, 4, 5, 6, 7, 8, 9, 1, 2],
     [6, 7, 8, 9, 1, 2, 3, 4, 5],
     [9, 1, 2, 3, 4, 5, 6, 7, 8]]"

definition example_puzzle :: board where
  "example_puzzle =
    [[0, 0, 3, 4, 5, 6, 7, 8, 9],
     [4, 5, 6, 7, 8, 9, 1, 2, 3],
     [7, 8, 9, 1, 2, 3, 4, 5, 6],
     [0, 3, 4, 5, 6, 7, 8, 9, 1],
     [5, 6, 7, 8, 9, 1, 2, 3, 4],
     [8, 9, 1, 2, 3, 4, 5, 6, 7],
     [3, 4, 5, 6, 7, 8, 9, 1, 2],
     [6, 7, 8, 9, 1, 2, 3, 4, 5],
     [9, 1, 2, 3, 4, 5, 6, 7, 8]]"

definition example_session :: session where
  "example_session =
     \<lparr>solvedBoard = example_grid, puzzleBoard = example_puzzle, initialPuzzle = example_puzzle,
      selectedCell = None, gameActive = True, statusMessage = ([], True)\<rparr>"

text \<open>
  A puzzle with exactly two completions, \<open>example_grid\<close> and \<open>twin_grid\<close>: the digits
  1, 4 and 7 of the first two rows are left out.
\<close>

definition twin_puzzle :: board where
  "twin_puzzle =
    [[0, 2, 3, 0, 5, 6, 0, 8, 9],
     [0, 5, 6, 0, 8, 9, 0, 2, 3],
     [7, 8, 9, 1, 2, 3, 4, 5, 6],
     [2, 3, 4, 5, 6, 7, 8, 9, 1],
     [5, 6, 7, 8, 9, 1, 2, 3, 4],
     [8, 9, 1, 2, 3, 4, 5, 6, 7],
     [3, 4, 5, 6, 7, 8, 9, 1, 2],
     [6, 7, 8, 9, 1, 2, 3, 4, 5],
     [9, 1, 2, 3, 4, 5, 6, 7, 8]]"

definition twin_grid :: board where
  "twin_grid =
    [[4, 2, 3, 7, 5, 6, 1, 8, 9],
     [1, 5, 6, 4, 8, 9, 7, 2, 3],
     [7, 8, 9, 1, 2, 3, 4, 5, 6],
     [2, 3, 4, 5, 6, 7, 8, 9, 1],
     [5, 6, 7, 8, 9, 1, 2, 3, 4],
     [8, 9, 1, 2, 3, 4, 5, 6, 7],
     [3, 4, 5, 6, 7, 8, 9, 1, 2],
     [6, 7, 8, 9, 1, 2, 3, 4, 5],
     [9, 1, 2, 3, 4, 5, 6, 7, 8]]"

section \<open>Properties of the board operations\<close>

subsection \<open>Cells and empty cells\<close>

lemma set_all_cells: "set all_cells = {(i, j). i < 9 \<and> j < 9}"
  by (auto simp: all_cells_def)

lemma distinct_all_cells: "distinct all_cells"
  by (simp add: all_cells_def distinct_product)

lemma copyBoard_id [simp]: "copyBoard b = b"
  by (simp add: copyBoard_def)

lemma wf9_set_cell: "wf9 b \<Longrightarrow> wf9 (set_cell b r c v)"
proof (cases "r < length b")
  case True
  assume wf: "wf9 b"
  have "length ((b ! r)[c := v]) = 9"
    using wf True by (simp add: wf9_def)
  moreover have "set (b[r := (b ! r)[c := v]]) \<subseteq> insert ((b ! r)[c := v]) (set b)"
    by (rule set_update_subset_insert)
  ultimately show ?thesis
    using wf unfolding wf9_def set_cell_def by auto
next
  case False
  then show "wf9 b \<Longrightarrow> wf9 (set_cell b r c v)" by (simp add: set_cell_def list_update_beyond)
qed

lemma nth_set_cell:
  "wf9 b \<Longrightarrow> i < 9 \<Longrightarrow> j < 9 \<Longrightarrow>
   set_cell b r c v ! i ! j = (if i = r \<and> j = c then v else b ! i ! j)"
  by (cases "i = r"; cases "j = c") (simp_all add: wf9_def set_cell_def)

lemma set_cell_restore: "set_cell (set_cell b r c v) r c (b ! r ! c) = b"
proof (cases "r < length b")
  case True
  then show ?thesis by (simp add: set_cell_def list_update_id)
next
  case False
  then show ?thesis by (simp add: set_cell_def list_update_beyond)
qed

lemma set_cell_clear: "b ! r ! c = 0 \<Longrightarrow> set_cell (set_cell b r c v) r c 0 = b"
  using set_cell_restore [of b r c v] by simp

lemma findEmptyCell_Some:
  assumes "findEmptyCell b = Some (r, c)"
  shows "r < 9 \<and> c < 9 \<and> b ! r ! c = 0"
proof -
  from assms obtain k where k: "k < length all_cells" "all_cells ! k = (r, c)" "b ! r ! c = 0"
    unfolding findEmptyCell_def find_Some_iff by auto
  then have "(r, c) \<in> set all_cells" by (metis nth_mem)
  with k show ?thesis by (simp add: set_all_cells)
qed

lemma findEmptyCell_None:
  "findEmptyCell b = None \<Longrightarrow> i < 9 \<Longrightarrow> j < 9 \<Longrightarrow> b ! i ! j \<noteq> 0"
  by (auto simp: findEmptyCell_def find_None_iff set_all_cells)

lemma zeros_card: "zeros b = card {p \<in> set all_cells. cell b p = 0}"
proof -
  have "{x. cell b x = 0} \<inter> set all_cells = {p \<in> set all_cells. cell b p = 0}" by auto
  then show ?thesis
    unfolding zeros_def by (simp add: distinct_length_filter distinct_all_cells)
qed

lemma zeros_set_cell:
  assumes "wf9 b" "r < 9" "c < 9" "b ! r ! c = 0" "v \<noteq> 0"
  shows "zeros (set_cell b r c v) < zeros b"
proof -
  let ?Z = "{p \<in> set all_cells. cell b p = 0}"
  have eq: "{p \<in> set all_cells. cell (set_cell b r c v) p = 0} = ?Z - {(r, c)}"
    using assms by (auto simp: set_all_cells cell_def nth_set_cell split: if_splits)
  have mem: "(r, c) \<in> ?Z" using assms by (simp add: set_all_cells cell_def)
  have "card (?Z - {(r, c)}) < card ?Z"
    by (rule card_Diff1_less [OF _ mem]) simp
  then show ?thesis
    unfolding zeros_card eq .
qed

lemma zeros_le_81: "zeros b \<le> 81"
proof -
  have "zeros b \<le> length all_cells" unfolding zeros_def by (rule length_filter_le)
  then show ?thesis by (simp add: all_cells_def)
qed

lemma zeros_set_cell_zero: 
  assumes "wf9 b" 
  shows "zeros (set_cell b r c 0) \<le> Suc (zeros b)"
proof -
  let ?Z = "{p \<in> set all_cells. cell b p = 0}"
  have "{p \<in> set all_cells. cell (set_cell b r c 0) p = 0} \<subseteq> insert (r, c) ?Z"
    using assms by (auto simp: set_all_cells cell_def nth_set_cell split: if_splits)
  then have "card {p \<in> set all_cells. cell (set_cell b r c 0) p = 0} \<le> card (insert (r, c) ?Z)"
    by (intro card_mono) simp_all
  also have "\<dots> \<le> Suc (card ?Z)" by (simp add: card_insert_le_m1)
  finally show ?thesis unfolding zeros_card .
qed

subsection \<open>The constraint checker\<close>

lemma row_clash_iff:
  "row_clash b v r c js \<longleftrightarrow> (\<exists>j \<in> set js. b ! r ! j = v \<and> c \<noteq> j)"
  by (induction js) auto

lemma col_clash_iff:
  "col_clash b v r c is \<longleftrightarrow> (\<exists>i \<in> set is. b ! i ! c = v \<and> r \<noteq> i)"
  by (induction "is") auto

lemma box_row_clash_iff:
  "box_row_clash b v r c i js \<longleftrightarrow> (\<exists>j \<in> set js. b ! i ! j = v \<and> (i \<noteq> r \<or> j \<noteq> c))"
  by (induction js) auto

lemma box_clash_iff:
  "box_clash b v r c is js \<longleftrightarrow>
     (\<exists>i \<in> set is. \<exists>j \<in> set js. b ! i ! j = v \<and> (i \<noteq> r \<or> j \<noteq> c))"
  by (induction "is") (auto simp: box_row_clash_iff)

lemma isValidPlacement_iff:
  "isValidPlacement b v (r, c) \<longleftrightarrow> \<not> occurs_elsewhere b v (r, c)"
proof -
  have A: "row_clash b v r c [0..<9] \<longleftrightarrow> (\<exists>j \<in> {0..<9}. j \<noteq> c \<and> b ! r ! j = v)"
    unfolding row_clash_iff by auto
  have B: "col_clash b v r c [0..<9] \<longleftrightarrow> (\<exists>i \<in> {0..<9}. i \<noteq> r \<and> b ! i ! c = v)"
    unfolding col_clash_iff by auto
  have C: "box_clash b v r c [r div 3 * 3..<r div 3 * 3 + 3] [c div 3 * 3..<c div 3 * 3 + 3] \<longleftrightarrow>
        (\<exists>i \<in> {r div 3 * 3..r div 3 * 3 + 2}. \<exists>j \<in> {c div 3 * 3..c div 3 * 3 + 2}.
            (i, j) \<noteq> (r, c) \<and> b ! i ! j = v)"
  proof -
    have 1: "{r div 3 * 3..<r div 3 * 3 + 3} = {r div 3 * 3..r div 3 * 3 + 2}" by auto
    have 2: "{c div 3 * 3..<c div 3 * 3 + 3} = {c div 3 * 3..c div 3 * 3 + 2}" by auto
    show ?thesis unfolding box_clash_iff set_upt 1 2 by auto
  qed
  show ?thesis
    unfolding isValidPlacement_def occurs_elsewhere_def
    by (simp only: prod.case Let_def A B C) simp
qed

lemma div3_range: "i \<in> {r div 3 * 3..r div 3 * 3 + 2} \<longleftrightarrow> i div 3 = r div (3::nat)"
  by auto

lemma div3_lt9: "i div 3 = r div 3 \<Longrightarrow> r < 9 \<Longrightarrow> i < (9::nat)"
  by (simp add: div_less_iff_less_mult [of 3 _ 3, simplified, symmetric])

lemma occurs_elsewhere_peers:
  assumes "r < 9" "c < 9"
  shows "occurs_elsewhere b v (r, c) \<longleftrightarrow>
         (\<exists>q \<in> set all_cells. peers (r, c) q \<and> cell b q = v)"
proof
  assume "occurs_elsewhere b v (r, c)"
  then consider
      (row) j where "j < 9" "j \<noteq> c" "b ! r ! j = v"
    | (col) i where "i < 9" "i \<noteq> r" "b ! i ! c = v"
    | (box) i j where "i \<in> {r div 3 * 3..r div 3 * 3 + 2}" "j \<in> {c div 3 * 3..c div 3 * 3 + 2}"
        "(i, j) \<noteq> (r, c)" "b ! i ! j = v"
    unfolding occurs_elsewhere_def prod.case by fastforce
  then show "\<exists>q \<in> set all_cells. peers (r, c) q \<and> cell b q = v"
  proof cases
    case row
    with assms have "(r, j) \<in> set all_cells" "peers (r, c) (r, j)" "cell b (r, j) = v"
      by (simp_all add: set_all_cells peers_def cell_def)
    then show ?thesis by blast
  next
    case col
    with assms have "(i, c) \<in> set all_cells" "peers (r, c) (i, c)" "cell b (i, c) = v"
      by (simp_all add: set_all_cells peers_def cell_def)
    then show ?thesis by blast
  next
    case box
    from box(1) have i: "i div 3 = r div 3" by (simp only: div3_range)
    from box(2) have j: "j div 3 = c div 3" by (simp only: div3_range)
    from i j assms have "i < 9" "j < 9" by (auto intro: div3_lt9)
    with i j box(3,4) have "(i, j) \<in> set all_cells" "peers (r, c) (i, j)" "cell b (i, j) = v"
      by (auto simp add: set_all_cells peers_def cell_def)
    then show ?thesis by blast
  qed
next
  assume "\<exists>q \<in> set all_cells. peers (r, c) q \<and> cell b q = v"
  then obtain i j where ij: "i < 9" "j < 9" "peers (r, c) (i, j)" "b ! i ! j = v"
    by (auto simp: set_all_cells cell_def)
  from ij(3) consider "r = i" "j \<noteq> c" | "c = j" "i \<noteq> r"
    | "i div 3 = r div 3" "j div 3 = c div 3" "(i, j) \<noteq> (r, c)"
    unfolding peers_def by auto
  then show "occurs_elsewhere b v (r, c)"
  proof cases
    case 1
    with ij show ?thesis unfolding occurs_elsewhere_def prod.case by auto
  next
    case 2
    with ij show ?thesis unfolding occurs_elsewhere_def prod.case by auto
  next
    case 3
    then have "i \<in> {r div 3 * 3..r div 3 * 3 + 2}" "j \<in> {c div 3 * 3..c div 3 * 3 + 2}"
      by (simp_all only: div3_range)
    with 3 ij show ?thesis unfolding occurs_elsewhere_def prod.case by blast
  qed
qed

subsection \<open>Rows, columns and boxes of a solved grid\<close>

lemma count_list_distinct: "distinct xs \<Longrightarrow> x \<in> set xs \<Longrightarrow> count_list xs x = 1"
  by (induction xs) (auto simp: count_list_0_iff)

lemma once_each_distinct:
  assumes "length u = 9" "once_each u"
  shows "distinct u"
proof -
  have sub: "{1..<10} \<subseteq> set u"
  proof
    fix v :: nat assume "v \<in> {1..<10}"
    with assms(2) have "count_list u v = 1" by (simp add: once_each_def)
    then show "v \<in> set u" by (metis count_list_0_iff zero_neq_one)
  qed
  have "card {1..<10::nat} \<le> card (set u)" by (rule card_mono [OF _ sub]) simp
  then have "9 \<le> card (set u)" by simp
  moreover have "card (set u) \<le> length u" by (rule card_length)
  ultimately have "card (set u) = length u" using assms(1) by simp
  then show ?thesis by (rule card_distinct)
qed

lemma distinct_once_each:
  assumes "length u = 9" "distinct u" "set u \<subseteq> {1..<10}"
  shows "once_each u"
proof -
  have "card (set u) = 9" using assms(1,2) by (simp add: distinct_card)
  then have "card (set u) = card {1..<10::nat}" by simp
  with assms(3) have "set u = {1..<10}" by (intro card_subset_eq) simp_all
  with assms(2) show ?thesis by (simp add: once_each_def count_list_distinct)
qed

lemma div3_lt: "(i::nat) < 9 \<longleftrightarrow> i div 3 < 3"
  by (simp add: div_less_iff_less_mult)

lemma row_of_cells: "row_of b k = map (cell b) (row_cells k)"
  by (simp add: row_of_def row_cells_def cell_def comp_def)

lemma col_of_cells: "col_of b k = map (cell b) (col_cells k)"
  by (simp add: col_of_def col_cells_def cell_def comp_def)

lemma box_of_cells: "box_of b k = map (cell b) (box_cells k)"
  by (simp add: box_of_def box_cells_def cell_def comp_def case_prod_unfold)

lemma set_row_cells: "set (row_cells k) = {(i, j). i = k \<and> j < 9}"
  by (auto simp: row_cells_def)

lemma set_col_cells: "set (col_cells k) = {(i, j). j = k \<and> i < 9}"
  by (auto simp: col_cells_def)

lemma set_box_cells:
  "k < 9 \<Longrightarrow> set (box_cells k) = {(i, j). i div 3 = k div 3 \<and> j div 3 = k mod 3}"
proof (intro set_eqI iffI)
  fix p assume "k < 9" "p \<in> set (box_cells k)"
  then obtain i j where "i < 3" "j < 3" "p = (k div 3 * 3 + i, k mod 3 * 3 + j)"
    by (auto simp: box_cells_def)
  then show "p \<in> {(i, j). i div 3 = k div 3 \<and> j div 3 = k mod 3}" by simp
next
  fix p assume "p \<in> {(i, j). i div 3 = k div 3 \<and> j div 3 = k mod 3}"
  then have p: "fst p div 3 = k div 3" "snd p div 3 = k mod 3" by auto
  have "fst p = k div 3 * 3 + fst p mod 3" "snd p = k mod 3 * 3 + snd p mod 3"
    using p by (metis div_mult_mod_eq)+
  then have "p = (\<lambda>(i, j). (k div 3 * 3 + i, k mod 3 * 3 + j)) (fst p mod 3, snd p mod 3)"
    by (cases p) simp
  moreover have "(fst p mod 3, snd p mod 3) \<in> set (List.product [0..<3] [0..<3])" by simp
  ultimately show "p \<in> set (box_cells k)"
    unfolding box_cells_def set_map by (rule image_eqI)
qed

lemma length_units:
  "length (row_cells k) = 9" "length (col_cells k) = 9" "length (box_cells k) = 9"
  by (simp_all add: row_cells_def col_cells_def box_cells_def)

lemma distinct_row_cells: "distinct (row_cells k)"
  by (simp add: row_cells_def distinct_map inj_on_def)

lemma distinct_col_cells: "distinct (col_cells k)"
  by (simp add: col_cells_def distinct_map inj_on_def)

lemma distinct_box_cells: "distinct (box_cells k)"
  unfolding box_cells_def
  by (simp add: distinct_map distinct_product inj_on_def)

lemma is_unit_row: "k < 9 \<Longrightarrow> is_unit (row_cells k)"
  unfolding is_unit_def
  by (auto simp: length_units distinct_row_cells set_row_cells set_all_cells peers_def)

lemma is_unit_col: "k < 9 \<Longrightarrow> is_unit (col_cells k)"
  unfolding is_unit_def
  by (auto simp: length_units distinct_col_cells set_col_cells set_all_cells peers_def)

lemma is_unit_box: 
  assumes "k < 9" shows "is_unit (box_cells k)"
proof -
  have "set (box_cells k) \<subseteq> set all_cells"
  proof
    fix p assume "p \<in> set (box_cells k)"
    then have "fst p div 3 = k div 3" "snd p div 3 = k mod 3"
      using assms by (auto simp: set_box_cells)
    with assms have "fst p < 9" "snd p < 9" by (simp_all add: div3_lt)
    then show "p \<in> set all_cells" by (cases p) (simp add: set_all_cells)
  qed
  moreover have "\<forall>p \<in> set (box_cells k). \<forall>q \<in> set (box_cells k). p \<noteq> q \<longrightarrow> peers p q"
    using assms by (auto simp: set_box_cells peers_def)
  ultimately show ?thesis
    unfolding is_unit_def by (simp add: length_units distinct_box_cells)
qed

lemma peers_common_unit:
  assumes "p \<in> set all_cells" "q \<in> set all_cells" "peers p q"
  shows "\<exists>k < 9. {p, q} \<subseteq> set (row_cells k) \<or> {p, q} \<subseteq> set (col_cells k)
            \<or> {p, q} \<subseteq> set (box_cells k)"
proof -
  obtain r c i j where pq: "p = (r, c)" "q = (i, j)" by (cases p, cases q) auto
  with assms have lt: "r < 9" "c < 9" "i < 9" "j < 9" by (simp_all add: set_all_cells)
  from assms(3) pq consider "r = i" | "c = j" | "r div 3 = i div 3" "c div 3 = j div 3"
    unfolding peers_def by auto
  then show ?thesis
  proof cases
    case 1
    with pq lt show ?thesis by (intro exI [of _ r]) (simp add: set_row_cells)
  next
    case 2
    with pq lt show ?thesis by (intro exI [of _ c]) (simp add: set_col_cells)
  next
    case 3
    let ?k = "r div 3 * 3 + c div 3"
    from lt have "r div 3 < 3" "c div 3 < 3" by (simp_all add: div3_lt)
    then have k: "?k < 9" "?k div 3 = r div 3" "?k mod 3 = c div 3" by simp_all
    with 3 pq show ?thesis by (intro exI [of _ ?k]) (simp add: set_box_cells)
  qed
qed

lemma peers_sym: "peers p q \<Longrightarrow> peers q p"
  by (auto simp: peers_def)

lemma unit_distinct_values:
  assumes u: "is_unit u" and c: "consistent b" and nz: "\<forall>p \<in> set u. cell b p \<noteq> 0"
  shows "distinct (map (cell b) u)"
proof -
  have "inj_on (cell b) (set u)"
  proof (rule inj_onI)
    fix p q assume pq: "p \<in> set u" "q \<in> set u" "cell b p = cell b q"
    show "p = q"
    proof (rule ccontr)
      assume "p \<noteq> q"
      with u pq have "peers p q" "p \<in> set all_cells" "q \<in> set all_cells"
        unfolding is_unit_def by blast+
      moreover from nz pq have "cell b p \<noteq> 0" by blast
      ultimately have "cell b p \<noteq> cell b q" using c unfolding consistent_def by blast
      with pq show False by simp
    qed
  qed
  with u show ?thesis by (simp add: distinct_map is_unit_def)
qed

lemma unit_once_each:
  assumes u: "is_unit u" and c: "consistent b"
    and rng: "\<forall>p \<in> set all_cells. 1 \<le> cell b p \<and> cell b p \<le> 9"
  shows "once_each (map (cell b) u)"
proof (rule distinct_once_each)
  show "length (map (cell b) u) = 9" using u by (simp add: is_unit_def)
  have sub: "set u \<subseteq> set all_cells" using u by (simp add: is_unit_def)
  with rng have "\<forall>p \<in> set u. cell b p \<noteq> 0" by fastforce
  with u c show "distinct (map (cell b) u)" by (rule unit_distinct_values)
  show "set (map (cell b) u) \<subseteq> {1..<10}"
    using sub rng by fastforce
qed

lemma full_consistent_solved:
  assumes "wf9 b" "consistent b" "\<forall>p \<in> set all_cells. 1 \<le> cell b p \<and> cell b p \<le> 9"
  shows "solved_grid b"
  unfolding solved_grid_def row_of_cells col_of_cells box_of_cells
  using assms by (auto intro!: unit_once_each is_unit_row is_unit_col is_unit_box)

lemma solved_grid_consistent:
  assumes "solved_grid s"
  shows "consistent s"
  unfolding consistent_def
proof (intro ballI impI)
  fix p q assume pq: "p \<in> set all_cells" "q \<in> set all_cells" "peers p q \<and> cell s p \<noteq> 0"
  then have ne: "p \<noteq> q" by (simp add: peers_def)
  from pq obtain k where k: "k < 9" and
    cases: "{p, q} \<subseteq> set (row_cells k) \<or> {p, q} \<subseteq> set (col_cells k) \<or> {p, q} \<subseteq> set (box_cells k)"
    using peers_common_unit [of p q] by blast
  from assms k have o: "once_each (map (cell s) (row_cells k))"
    "once_each (map (cell s) (col_cells k))" "once_each (map (cell s) (box_cells k))"
    by (simp_all add: solved_grid_def row_of_cells col_of_cells box_of_cells)
  have d: "distinct (map (cell s) (row_cells k))"
    "distinct (map (cell s) (col_cells k))" "distinct (map (cell s) (box_cells k))"
    using o by (simp_all add: once_each_distinct length_units)
  then have inj: "inj_on (cell s) (set (row_cells k))" "inj_on (cell s) (set (col_cells k))"
    "inj_on (cell s) (set (box_cells k))"
    by (simp_all add: distinct_map)
  from cases inj ne show "cell s p \<noteq> cell s q"
    by (auto dest: inj_onD)
qed

lemma solved_grid_iff:
  "solved_grid b \<longleftrightarrow>
     wf9 b \<and> (\<forall>p \<in> set all_cells. 1 \<le> cell b p \<and> cell b p \<le> 9) \<and> consistent b"
  using full_consistent_solved solved_grid_consistent
  by (auto simp: solved_grid_def)

lemma solved_valid_partial: "solved_grid b \<Longrightarrow> valid_partial b"
  by (auto simp: solved_grid_iff valid_partial_def)

subsection \<open>Completions\<close>

lemma cell_set_cell:
  "wf9 b \<Longrightarrow> p \<in> set all_cells \<Longrightarrow>
   cell (set_cell b r c v) p = (if p = (r, c) then v else cell b p)"
  by (cases p) (auto simp: cell_def set_all_cells nth_set_cell)

lemma board_eqI:
  assumes "wf9 a" "wf9 b" "\<forall>p \<in> set all_cells. cell a p = cell b p"
  shows "a = b"
proof (rule nth_equalityI)
  show "length a = length b" using assms by (simp add: wf9_def)
  fix i assume i: "i < length a"
  then have i9: "i < 9" using assms by (simp add: wf9_def)
  show "a ! i = b ! i"
  proof (rule nth_equalityI)
    show len: "length (a ! i) = length (b ! i)" using assms i9 by (simp add: wf9_def)
    fix j assume "j < length (a ! i)"
    then have "j < 9" using assms i9 by (simp add: wf9_def)
    with i9 assms(3) show "a ! i ! j = b ! i ! j"
      by (auto simp: set_all_cells cell_def)
  qed
qed

lemma finite_boards: "finite {s. wf9 s \<and> (\<forall>p \<in> set all_cells. cell s p \<le> 9)}"
proof -
  let ?rows = "{row::nat list. set row \<subseteq> {..9} \<and> length row = 9}"
  have fr: "finite ?rows" by (rule finite_lists_length_eq) simp
  have "{s. wf9 s \<and> (\<forall>p \<in> set all_cells. cell s p \<le> 9)} \<subseteq> {s. set s \<subseteq> ?rows \<and> length s = 9}"
  proof clarify
    fix s assume wf: "wf9 s" and le: "\<forall>p \<in> set all_cells. cell s p \<le> 9"
    have "set s \<subseteq> ?rows"
    proof
      fix row assume "row \<in> set s"
      then obtain i where i: "i < length s" "row = s ! i" by (auto simp: in_set_conv_nth)
      with wf have i9: "i < 9" and len: "length row = 9" by (auto simp: wf9_def)
      have "set row \<subseteq> {..9}"
      proof
        fix x assume "x \<in> set row"
        then obtain j where j: "j < length row" "x = row ! j" by (auto simp: in_set_conv_nth)
        with len i i9 le show "x \<in> {..9}" by (auto simp: set_all_cells cell_def)
      qed
      with len show "row \<in> ?rows" by simp
    qed
    with wf show "set s \<subseteq> ?rows \<and> length s = 9" by (simp add: wf9_def)
  qed
  moreover have "finite {s. set s \<subseteq> ?rows \<and> length s = 9}"
    by (rule finite_lists_length_eq [OF fr])
  ultimately show ?thesis by (rule finite_subset)
qed

lemma finite_completions: "finite (completions b)"
proof (rule finite_subset [OF _ finite_boards])
  show "completions b \<subseteq> {s. wf9 s \<and> (\<forall>p \<in> set all_cells. cell s p \<le> 9)}"
    by (auto simp: completions_def solved_grid_def)
qed

lemma completions_cell_range:
  "s \<in> completions b \<Longrightarrow> p \<in> set all_cells \<Longrightarrow> cell s p \<in> set [1..<10]"
  by (auto simp: completions_def solved_grid_def)

lemma completions_set_cell:
  assumes "wf9 b" "r < 9" "c < 9" "b ! r ! c = 0" "v \<noteq> 0"
  shows "completions (set_cell b r c v) = {s \<in> completions b. cell s (r, c) = v}"
proof -
  have rc: "(r, c) \<in> set all_cells" using assms by (simp add: set_all_cells)
  have b0: "cell b (r, c) = 0" using assms by (simp add: cell_def)
  have "extends (set_cell b r c v) s \<longleftrightarrow> extends b s \<and> cell s (r, c) = v" for s
  proof
    assume e: "extends (set_cell b r c v) s"
    have "extends b s" unfolding extends_def
    proof (intro ballI impI)
      fix p assume p: "p \<in> set all_cells" "cell b p \<noteq> 0"
      with b0 have "p \<noteq> (r, c)" by auto
      with p assms(1) have "cell (set_cell b r c v) p = cell b p" by (simp add: cell_set_cell)
      with e p show "cell s p = cell b p" unfolding extends_def by fastforce
    qed
    moreover have "cell s (r, c) = v"
      using e rc assms(1,5) unfolding extends_def by (fastforce simp: cell_set_cell)
    ultimately show "extends b s \<and> cell s (r, c) = v" ..
  next
    assume e: "extends b s \<and> cell s (r, c) = v"
    show "extends (set_cell b r c v) s" unfolding extends_def
    proof (intro ballI impI)
      fix p assume p: "p \<in> set all_cells" "cell (set_cell b r c v) p \<noteq> 0"
      show "cell s p = cell (set_cell b r c v) p"
      proof (cases "p = (r, c)")
        case True
        with e assms(1) rc show ?thesis by (simp add: cell_set_cell)
      next
        case False
        with p assms(1) have "cell (set_cell b r c v) p = cell b p" by (simp add: cell_set_cell)
        with e p show ?thesis unfolding extends_def by fastforce
      qed
    qed
  qed
  then show ?thesis unfolding completions_def by auto
qed

lemma completions_full:
  assumes "valid_partial b" "\<forall>p \<in> set all_cells. cell b p \<noteq> 0"
  shows "completions b = {b}"
proof -
  from assms have wf: "wf9 b" and cons: "consistent b"
    and rng: "\<forall>p \<in> set all_cells. 1 \<le> cell b p \<and> cell b p \<le> 9"
    by (auto simp: valid_partial_def Suc_le_eq)
  then have sol: "solved_grid b" by (intro full_consistent_solved)
  have "s = b" if "s \<in> completions b" for s
  proof (rule board_eqI [OF _ wf])
    from that show "wf9 s" by (simp add: completions_def solved_grid_def)
    from that assms(2) show "\<forall>p \<in> set all_cells. cell s p = cell b p"
      by (simp add: completions_def extends_def)
  qed
  moreover have "b \<in> completions b" using sol by (simp add: completions_def extends_def)
  ultimately show ?thesis by blast
qed

lemma completions_invalid:
  assumes "r < 9" "c < 9" "\<not> isValidPlacement b v (r, c)"
  shows "{s \<in> completions b. cell s (r, c) = v} = {}"
proof -
  from assms obtain q where q: "q \<in> set all_cells" "peers (r, c) q" "cell b q = v"
    by (auto simp: isValidPlacement_iff occurs_elsewhere_peers)
  have rc: "(r, c) \<in> set all_cells" using assms by (simp add: set_all_cells)
  have False if s: "s \<in> completions b" "cell s (r, c) = v" for s
  proof -
    from s have sol: "solved_grid s" and ext: "extends b s" by (simp_all add: completions_def)
    from sol rc s(2) have "v \<noteq> 0" by (auto simp: solved_grid_def)
    with q ext have sq: "cell s q = v" by (auto simp: extends_def)
    from sol have "consistent s" by (rule solved_grid_consistent)
    then have "peers (r, c) q \<and> cell s (r, c) \<noteq> 0 \<longrightarrow> cell s (r, c) \<noteq> cell s q"
      using rc q(1) unfolding consistent_def by blast
    with q(2) s(2) sq \<open>v \<noteq> 0\<close> show False by simp
  qed
  then show ?thesis by blast
qed

lemma valid_partial_set_cell:
  assumes vp: "valid_partial b" and rc: "r < 9" "c < 9" and v: "v \<le> 9"
    and ok: "isValidPlacement b v (r, c)"
  shows "valid_partial (set_cell b r c v)"
proof -
  from vp have wf: "wf9 b" and le: "\<forall>p \<in> set all_cells. cell b p \<le> 9" and cons: "consistent b"
    by (simp_all add: valid_partial_def)
  have nop: "\<And>q. q \<in> set all_cells \<Longrightarrow> peers (r, c) q \<Longrightarrow> cell b q \<noteq> v"
    using ok rc by (auto simp: isValidPlacement_iff occurs_elsewhere_peers)
  have "consistent (set_cell b r c v)" unfolding consistent_def
  proof (intro ballI impI)
    fix p q assume pq: "p \<in> set all_cells" "q \<in> set all_cells"
      "peers p q \<and> cell (set_cell b r c v) p \<noteq> 0"
    then have ne: "p \<noteq> q" by (simp add: peers_def)
    show "cell (set_cell b r c v) p \<noteq> cell (set_cell b r c v) q"
    proof (cases "p = (r, c)")
      case True
      with ne pq nop [of q] wf show ?thesis by (simp add: cell_set_cell)
    next
      case False
      note p_ne = this
      show ?thesis
      proof (cases "q = (r, c)")
        case True
        with pq have "peers (r, c) p" by (auto intro: peers_sym)
        with nop [of p] pq p_ne True wf show ?thesis by (simp add: cell_set_cell)
      next
        case False
        with p_ne pq wf cons show ?thesis
          unfolding consistent_def by (simp add: cell_set_cell)
      qed
    qed
  qed
  moreover have "\<forall>p \<in> set all_cells. cell (set_cell b r c v) p \<le> 9"
    using wf le v by (simp add: cell_set_cell)
  ultimately show ?thesis using wf by (simp add: valid_partial_def wf9_set_cell)
qed

subsection \<open>The solution counter\<close>

lemma solve_loop_post:
  assumes IH: "\<And>b cnt. wf9 b \<Longrightarrow> zeros b < fuel \<Longrightarrow>
                 solve_post b cnt (completions b) (solve fuel b cnt)"
    and wf: "wf9 b" and rc: "r < 9" "c < 9" and empty: "b ! r ! c = 0"
    and z: "zeros b \<le> fuel"
    and nums: "distinct nums" "set nums \<subseteq> {1..9}"
  shows "solve_post b cnt {s \<in> completions b. cell s (r, c) \<in> set nums}
           (solve_loop fuel r c nums b cnt)"
  using nums
proof (induction nums arbitrary: cnt)
  case Nil
  show ?case using wf by (simp add: solve_post_def)
next
  case (Cons num nums)
  let ?S1 = "{s \<in> completions b. cell s (r, c) = num}"
  let ?S2 = "{s \<in> completions b. cell s (r, c) \<in> set nums}"
  let ?S = "{s \<in> completions b. cell s (r, c) \<in> set (num # nums)}"
  from Cons.prems have num: "num \<noteq> 0" "num \<le> 9" "num \<notin> set nums"
    and nums': "distinct nums" "set nums \<subseteq> {1..9}" by auto
  have fin: "finite ?S1" "finite ?S2" by (simp_all add: finite_completions)
  have "?S = ?S1 \<union> ?S2" "?S1 \<inter> ?S2 = {}" using num(3) by auto
  then have card: "card ?S = card ?S1 + card ?S2"
    using fin by (simp add: card_Un_disjoint)
  note loopIH = Cons.IH [OF nums']
  show ?case
  proof (cases "isValidPlacement b num (r, c)")
    case False
    then have "?S1 = {}" using rc by (intro completions_invalid)
    with card have "card ?S = card ?S2" by simp
    moreover have "solve_loop fuel r c (num # nums) b cnt = solve_loop fuel r c nums b cnt"
      using False by simp
    ultimately show ?thesis using loopIH [of cnt] by (simp only: solve_post_def)
  next
    case True
    let ?b1 = "set_cell b r c num"
    have wf1: "wf9 ?b1" using wf by (rule wf9_set_cell)
    have "zeros ?b1 < zeros b" using wf rc empty num(1) by (rule zeros_set_cell)
    with z have z1: "zeros ?b1 < fuel" by simp
    have S1: "completions ?b1 = ?S1" using wf rc empty num(1) by (rule completions_set_cell)
    from IH [OF wf1 z1, of cnt] obtain b1' n1 where
      res1: "solve fuel ?b1 cnt = Some (b1', n1)" and wf1': "wf9 b1'" and mono1: "cnt \<le> n1"
      and restore1: "n1 \<le> 1 \<longrightarrow> b1' = ?b1"
      and count1: "valid_partial ?b1 \<longrightarrow> cnt \<le> 1 \<longrightarrow>
          n1 = min 2 (cnt + card ?S1) \<and> (1 < n1 \<longrightarrow> b1' \<in> ?S1)"
      unfolding solve_post_def S1 by blast
    have vp1: "valid_partial b \<Longrightarrow> valid_partial ?b1"
      using rc num(2) True by (intro valid_partial_set_cell)
    show ?thesis
    proof (cases "1 < n1")
      case True
      have eq: "solve_loop fuel r c (num # nums) b cnt = Some (b1', n1)"
        using \<open>isValidPlacement b num (r, c)\<close> res1 True by simp
      have "n1 = min 2 (cnt + card ?S) \<and> (1 < n1 \<longrightarrow> b1' \<in> completions b)"
        if "valid_partial b" "cnt \<le> 1"
      proof -
        from that vp1 count1 True have "n1 = min 2 (cnt + card ?S1)" "b1' \<in> ?S1" by auto
        with True card show ?thesis by auto
      qed
      with wf1' mono1 True show ?thesis unfolding solve_post_def eq by auto
    next
      case False
      then have n1: "n1 \<le> 1" by simp
      with restore1 have "b1' = ?b1" by simp
      then have cleared: "set_cell b1' r c 0 = b" using empty by (simp add: set_cell_clear)
      have eq: "solve_loop fuel r c (num # nums) b cnt = solve_loop fuel r c nums b n1"
        using \<open>isValidPlacement b num (r, c)\<close> res1 False cleared by simp
      from loopIH [of n1] obtain b' n where
        res: "solve_loop fuel r c nums b n1 = Some (b', n)" and wf': "wf9 b'" and mono: "n1 \<le> n"
        and restore: "n \<le> 1 \<longrightarrow> b' = b"
        and count: "valid_partial b \<longrightarrow> n1 \<le> 1 \<longrightarrow>
            n = min 2 (n1 + card ?S2) \<and> (1 < n \<longrightarrow> b' \<in> completions b)"
        unfolding solve_post_def by blast
      have "n = min 2 (cnt + card ?S) \<and> (1 < n \<longrightarrow> b' \<in> completions b)"
        if "valid_partial b" "cnt \<le> 1"
      proof -
        from that vp1 count1 have "n1 = min 2 (cnt + card ?S1)" by simp
        with n1 have "n1 = cnt + card ?S1" by simp
        moreover from that count n1 have "n = min 2 (n1 + card ?S2)" "1 < n \<longrightarrow> b' \<in> completions b"
          by simp_all
        ultimately show ?thesis using card by simp
      qed
      with wf' mono mono1 restore show ?thesis
        unfolding solve_post_def eq res by auto
    qed
  qed
qed

lemma solve_post_solve:
  "wf9 b \<Longrightarrow> zeros b < fuel \<Longrightarrow> solve_post b cnt (completions b) (solve fuel b cnt)"
proof (induction fuel arbitrary: b cnt)
  case 0
  then show ?case by simp
next
  case (Suc fuel)
  show ?case
  proof (cases "findEmptyCell b")
    case None
    then have full: "\<forall>p \<in> set all_cells. cell b p \<noteq> 0"
      by (auto simp: set_all_cells cell_def dest: findEmptyCell_None)
    have eq: "solve (Suc fuel) b cnt = Some (b, cnt + 1)" using None by simp
    have "card (completions b) = 1 \<and> b \<in> completions b" if "valid_partial b"
      using completions_full [OF that full] by simp
    with Suc.prems(1) show ?thesis unfolding solve_post_def eq by auto
  next
    case (Some p)
    obtain r c where p: "p = (r, c)" by (cases p)
    with Some have rc: "r < 9" "c < 9" and empty: "b ! r ! c = 0"
      by (auto dest: findEmptyCell_Some)
    have eq: "solve (Suc fuel) b cnt = solve_loop fuel r c [1..<10] b cnt"
      using Some p by simp
    have "(r, c) \<in> set all_cells" using rc by (simp add: set_all_cells)
    then have "{s \<in> completions b. cell s (r, c) \<in> set [1..<10]} = completions b"
      using completions_cell_range [of _ b "(r, c)"] by blast
    moreover have "solve_post b cnt {s \<in> completions b. cell s (r, c) \<in> set [1..<10]}
           (solve_loop fuel r c [1..<10] b cnt)"
      using Suc.prems rc empty by (intro solve_loop_post Suc.IH) auto
    ultimately show ?thesis unfolding eq by simp
  qed
qed

subsection \<open>Shuffling and the generator\<close>

lemma random_below_lt: "0 < n \<Longrightarrow> fst (random_below n g) < n"
  by (simp add: random_below_def split: list.split)

lemma shuffle_loop_mset:
  "k \<le> length xs - 1 \<Longrightarrow> mset (fst (shuffle_loop k xs g)) = mset xs"
proof (induction k arbitrary: xs g)
  case 0
  show ?case by simp
next
  case (Suc k)
  obtain j g' where rb: "random_below (Suc k + 1) g = (j, g')" by (cases "random_below (Suc k + 1) g")
  have "fst (random_below (Suc k + 1) g) < Suc k + 1" by (rule random_below_lt) simp
  with rb have j: "j < Suc k + 1" by simp
  from Suc.prems have i: "Suc k < length xs" by simp
  with j have j': "j < length xs" by simp
  let ?xs' = "xs[Suc k := xs ! j, j := xs ! Suc k]"
  have "mset ?xs' = mset xs" using j' i by (rule mset_swap)
  moreover have "k \<le> length ?xs' - 1" using Suc.prems by simp
  then have "mset (fst (shuffle_loop k ?xs' g')) = mset ?xs'" by (rule Suc.IH)
  ultimately show ?case using rb by (simp add: Let_def)
qed

lemma shuffle_mset: "mset (fst (shuffle xs g)) = mset xs"
  unfolding shuffle_def by (rule shuffle_loop_mset) simp

lemma shuffle_set: "set (fst (shuffle xs g)) = set xs"
  using shuffle_mset [of xs g] by (rule mset_eq_setD)

lemma generate_loop_post:
  assumes IH: "\<And>b g. wf9 b \<Longrightarrow> zeros b < fuel \<Longrightarrow>
                 generate_post b (completions b) (generateSolvedSudokuGrid fuel b g)"
    and wf: "wf9 b" and rc: "r < 9" "c < 9" and empty: "b ! r ! c = 0"
    and z: "zeros b \<le> fuel"
    and nums: "set nums \<subseteq> {1..9}"
  shows "generate_post b {s \<in> completions b. cell s (r, c) \<in> set nums}
           (generate_loop fuel r c nums b g)"
  using nums
proof (induction nums arbitrary: g)
  case Nil
  show ?case using wf by (auto simp: generate_post_def)
next
  case (Cons num nums)
  let ?S1 = "{s \<in> completions b. cell s (r, c) = num}"
  let ?S2 = "{s \<in> completions b. cell s (r, c) \<in> set nums}"
  let ?S = "{s \<in> completions b. cell s (r, c) \<in> set (num # nums)}"
  from Cons.prems have num: "num \<noteq> 0" "num \<le> 9" and nums': "set nums \<subseteq> {1..9}" by auto
  have S: "?S = ?S1 \<union> ?S2" by auto
  note loopIH = Cons.IH [OF nums']
  show ?case
  proof (cases "isValidPlacement b num (r, c)")
    case False
    then have "?S1 = {}" using rc by (intro completions_invalid)
    with S have "?S = ?S2" by simp
    moreover have "generate_loop fuel r c (num # nums) b g = generate_loop fuel r c nums b g"
      using False by simp
    ultimately show ?thesis using loopIH [of g] by (simp only: generate_post_def)
  next
    case True
    let ?b1 = "set_cell b r c num"
    have wf1: "wf9 ?b1" using wf by (rule wf9_set_cell)
    have "zeros ?b1 < zeros b" using wf rc empty num(1) by (rule zeros_set_cell)
    with z have z1: "zeros ?b1 < fuel" by simp
    have S1: "completions ?b1 = ?S1" using wf rc empty num(1) by (rule completions_set_cell)
    from IH [OF wf1 z1, of g] obtain ok1 b1' g1 where
      res1: "generateSolvedSudokuGrid fuel ?b1 g = Some (ok1, b1', g1)" and wf1': "wf9 b1'"
      and restore1: "\<not> ok1 \<longrightarrow> b1' = ?b1"
      and sound1: "valid_partial ?b1 \<longrightarrow> (ok1 \<longrightarrow> b1' \<in> ?S1) \<and> (\<not> ok1 \<longrightarrow> ?S1 = {})"
      unfolding generate_post_def S1 by blast
    have vp1: "valid_partial b \<Longrightarrow> valid_partial ?b1"
      using rc num(2) True by (intro valid_partial_set_cell)
    show ?thesis
    proof (cases ok1)
      case True
      have eq: "generate_loop fuel r c (num # nums) b g = Some (True, b1', g1)"
        using \<open>isValidPlacement b num (r, c)\<close> res1 True by simp
      have "b1' \<in> completions b" if "valid_partial b"
        using that vp1 sound1 True by auto
      with wf1' show ?thesis unfolding generate_post_def eq by auto
    next
      case False
      with restore1 have "b1' = ?b1" by simp
      then have cleared: "set_cell b1' r c 0 = b" using empty by (simp add: set_cell_clear)
      have eq: "generate_loop fuel r c (num # nums) b g = generate_loop fuel r c nums b g1"
        using \<open>isValidPlacement b num (r, c)\<close> res1 False cleared by simp
      have "?S = ?S2" if "valid_partial b"
        using that vp1 sound1 False S by auto
      with loopIH [of g1] show ?thesis
        unfolding generate_post_def eq by auto
    qed
  qed
qed

lemma generate_post_generate:
  "wf9 b \<Longrightarrow> zeros b < fuel \<Longrightarrow>
   generate_post b (completions b) (generateSolvedSudokuGrid fuel b g)"
proof (induction fuel arbitrary: b g)
  case 0
  then show ?case by simp
next
  case (Suc fuel)
  show ?case
  proof (cases "findEmptyCell b")
    case None
    then have full: "\<forall>p \<in> set all_cells. cell b p \<noteq> 0"
      by (auto simp: set_all_cells cell_def dest: findEmptyCell_None)
    have eq: "generateSolvedSudokuGrid (Suc fuel) b g = Some (True, b, g)" using None by simp
    have "b \<in> completions b" if "valid_partial b"
      using completions_full [OF that full] by simp
    with Suc.prems(1) show ?thesis unfolding generate_post_def eq by auto
  next
    case (Some p)
    obtain r c where p: "p = (r, c)" by (cases p)
    with Some have rc: "r < 9" "c < 9" and empty: "b ! r ! c = 0"
      by (auto dest: findEmptyCell_Some)
    obtain numbers g' where sh: "shuffle [1::nat, 2, 3, 4, 5, 6, 7, 8, 9] g = (numbers, g')"
      by (cases "shuffle [1::nat, 2, 3, 4, 5, 6, 7, 8, 9] g")
    have "set numbers = set [1::nat, 2, 3, 4, 5, 6, 7, 8, 9]"
      using shuffle_set [of "[1::nat, 2, 3, 4, 5, 6, 7, 8, 9]" g] sh by simp
    also have "[1::nat, 2, 3, 4, 5, 6, 7, 8, 9] = [1..<10]" by code_simp
    finally have numbers: "set numbers = set [1..<10]" .
    have eq: "generateSolvedSudokuGrid (Suc fuel) b g = generate_loop fuel r c numbers b g'"
      using Some p sh by simp
    have "(r, c) \<in> set all_cells" using rc by (simp add: set_all_cells)
    then have "{s \<in> completions b. cell s (r, c) \<in> set numbers} = completions b"
      unfolding numbers using completions_cell_range [of _ b "(r, c)"] by blast
    moreover have "generate_post b {s \<in> completions b. cell s (r, c) \<in> set numbers}
           (generate_loop fuel r c numbers b g')"
      using Suc.prems rc empty numbers by (intro generate_loop_post Suc.IH) auto
    ultimately show ?thesis unfolding eq by simp
  qed
qed

lemma solved_example_grid: "solved_grid example_grid"
  by code_simp

subsection \<open>The carver\<close>

lemma countSolutions_post:
  assumes "wf9 b" "zeros b < fuel"
  shows "\<exists>n b'. countSolutions fuel b = Some (n, b') \<and> wf9 b' \<and> (n \<le> 1 \<longrightarrow> b' = b) \<and>
           (valid_partial b \<longrightarrow> n = min 2 (card (completions b)) \<and> (1 < n \<longrightarrow> b' \<in> completions b))"
proof -
  from solve_post_solve [OF assms, of 0] obtain b' n where
    "solve fuel b 0 = Some (b', n)" "wf9 b'" "n \<le> 1 \<longrightarrow> b' = b"
    "valid_partial b \<longrightarrow> n = min 2 (card (completions b)) \<and> (1 < n \<longrightarrow> b' \<in> completions b)"
    unfolding solve_post_def by auto
  then show ?thesis by (simp add: countSolutions_def)
qed

lemma agrees_set_cell_zero: "wf9 P \<Longrightarrow> agrees P G \<Longrightarrow> agrees (set_cell P r c 0) G"
  by (auto simp: agrees_def nth_set_cell)

lemma agrees_extends: "agrees P G \<longleftrightarrow> extends P G"
  by (auto simp: agrees_def extends_def set_all_cells cell_def)

lemma agrees_valid_partial:
  assumes "solved_grid G" "wf9 P" "agrees P G"
  shows "valid_partial P"
proof -
  from assms(1) have cons: "consistent G"
    and rng: "\<forall>p \<in> set all_cells. 1 \<le> cell G p \<and> cell G p \<le> 9"
    by (simp_all add: solved_grid_iff)
  from assms(3) have ext: "\<And>p. p \<in> set all_cells \<Longrightarrow> cell P p \<noteq> 0 \<Longrightarrow> cell P p = cell G p"
    by (auto simp: agrees_extends extends_def)
  have "cell P p \<le> 9" if "p \<in> set all_cells" for p
    using ext [OF that] rng that by (cases "cell P p = 0") auto
  moreover have "consistent P" unfolding consistent_def
  proof (intro ballI impI notI)
    fix p q assume pq: "p \<in> set all_cells" "q \<in> set all_cells" "peers p q \<and> cell P p \<noteq> 0"
      and eq: "cell P p = cell P q"
    then have "cell P p = cell G p" "cell P q = cell G q" using ext by auto
    moreover have "cell G p \<noteq> 0" using rng pq(1) by auto
    moreover have "peers p q \<and> cell G p \<noteq> 0 \<longrightarrow> cell G p \<noteq> cell G q"
      using cons pq(1,2) unfolding consistent_def by blast
    ultimately show False using pq(3) eq by simp
  qed
  ultimately show ?thesis using assms(2) by (simp add: valid_partial_def)
qed

lemma carve_loop_terminates:
  assumes "81 < fuel"
  shows "wf9 puzzle \<Longrightarrow> \<exists>P. carve_loop fuel holes cells puzzle removed = Some P \<and> wf9 P"
proof (induction cells arbitrary: puzzle removed)
  case Nil
  then show ?case by simp
next
  case (Cons p cells)
  obtain row col where p: "p = (row, col)" by (cases p)
  let ?p1 = "set_cell puzzle row col 0"
  have wf1: "wf9 ?p1" using Cons.prems by (rule wf9_set_cell)
  have "zeros ?p1 < fuel" using zeros_le_81 [of ?p1] assms by simp
  with wf1 obtain n b' where probe: "countSolutions fuel ?p1 = Some (n, b')"
    using countSolutions_post by blast
  have undo: "set_cell ?p1 row col (puzzle ! row ! col) = puzzle" by (rule set_cell_restore)
  show ?case
    using Cons.IH [OF wf1, of "removed + 1"] Cons.IH [OF Cons.prems, of removed] Cons.prems
    by (simp add: p probe undo Let_def)
qed

lemma carve_loop_invariant:
  assumes fuel: "81 < fuel"
  shows "wf9 puzzle \<Longrightarrow> countSolutions fuel puzzle = Some (1, puzzle) \<Longrightarrow> agrees puzzle G \<Longrightarrow>
    zeros puzzle \<le> removed \<Longrightarrow> removed \<le> holes \<Longrightarrow>
    \<exists>P. carve_loop fuel holes cells puzzle removed = Some P \<and> wf9 P \<and>
        countSolutions fuel P = Some (1, P) \<and> agrees P G \<and> zeros P \<le> holes"
proof (induction cells arbitrary: puzzle removed)
  case Nil
  then show ?case by simp
next
  case (Cons p cells)
  obtain row col where p: "p = (row, col)" by (cases p)
  show ?case
  proof (cases "holes \<le> removed")
    case True
    with Cons.prems show ?thesis by (simp add: p)
  next
    case False
    let ?p1 = "set_cell puzzle row col 0"
    have wf1: "wf9 ?p1" using Cons.prems(1) by (rule wf9_set_cell)
    have "zeros ?p1 < fuel" using zeros_le_81 [of ?p1] fuel by simp
    with wf1 obtain n b' where probe: "countSolutions fuel ?p1 = Some (n, b')"
      and restored: "n \<le> 1 \<longrightarrow> b' = ?p1"
      using countSolutions_post by blast
    have undo: "set_cell ?p1 row col (puzzle ! row ! col) = puzzle" by (rule set_cell_restore)
    show ?thesis
    proof (cases "n = 1")
      case True
      with probe restored have c1: "countSolutions fuel ?p1 = Some (1, ?p1)" by simp
      have a1: "agrees ?p1 G" using Cons.prems(1,3) by (rule agrees_set_cell_zero)
      have "zeros ?p1 \<le> Suc (zeros puzzle)" using Cons.prems(1) by (rule zeros_set_cell_zero)
      with Cons.prems(4) False have z1: "zeros ?p1 \<le> removed + 1" "removed + 1 \<le> holes" by simp_all
      from Cons.IH [OF wf1 c1 a1 z1] show ?thesis
        using False True probe by (simp add: p Let_def)
    next
      case n: False
      from Cons.IH [OF Cons.prems] show ?thesis
        using False n probe undo by (simp add: p Let_def)
    qed
  qed
qed

lemma solved_grid_no_zero: "solved_grid G \<Longrightarrow> zeros G = 0"
  by (auto simp: zeros_def solved_grid_def filter_empty_conv)

lemma solved_grid_count: 
  assumes "solved_grid G" shows "countSolutions (Suc fuel) G = Some (1, G)"
proof -
  have "findEmptyCell G = None"
    using assms unfolding findEmptyCell_def find_None_iff solved_grid_def
    by (fastforce simp: cell_def)
  then show ?thesis by (simp add: countSolutions_def)
qed

lemma createPuzzle_props:
  assumes "solved_grid G" "81 < fuel"
  shows "\<exists>P g'. createPuzzle fuel G holes g = Some (P, g') \<and> wf9 P \<and>
           countSolutions fuel P = Some (1, P) \<and> agrees P G \<and> zeros P \<le> holes"
proof -
  obtain cells g' where sh: "shuffle all_cells g = (cells, g')" by (cases "shuffle all_cells g")
  from assms(2) obtain k where k: "fuel = Suc k" by (cases fuel) auto
  have wf: "wf9 G" using assms(1) by (simp add: solved_grid_def)
  have c: "countSolutions fuel G = Some (1, G)" unfolding k using assms(1) by (rule solved_grid_count)
  have a: "agrees G G" by (simp add: agrees_def)
  have z: "zeros G \<le> 0" using assms(1) by (simp add: solved_grid_no_zero)
  from carve_loop_invariant [OF assms(2) wf c a z, of holes cells]
  obtain P where P: "carve_loop fuel holes cells G 0 = Some P" "wf9 P"
    "countSolutions fuel P = Some (1, P)" "agrees P G" "zeros P \<le> holes" by blast
  have "createPuzzle fuel G holes g = Some (P, g')"
    by (simp add: createPuzzle_def sh P(1))
  with P show ?thesis by blast
qed

lemma count_one_unique:
  assumes "solved_grid G" "wf9 P" "agrees P G" "countSolutions fuel P = Some (1, P)" "81 < fuel"
  shows "completions P = {G}"
proof -
  have vp: "valid_partial P" using assms(1-3) by (rule agrees_valid_partial)
  have "zeros P < fuel" using zeros_le_81 [of P] assms(5) by simp
  from countSolutions_post [OF assms(2) this] obtain n b' where
    "countSolutions fuel P = Some (n, b')" "valid_partial P \<longrightarrow> n = min 2 (card (completions P))"
    by blast
  with vp assms(4) have "1 = min 2 (card (completions P))" by simp
  then have "card (completions P) = 1" by (simp add: min_def split: if_splits)
  then obtain x where x: "completions P = {x}" by (rule card_1_singletonE)
  moreover have "G \<in> completions P" using assms(1,3) by (simp add: completions_def agrees_extends)
  ultimately show ?thesis by simp
qed

lemma zeros_set_cell_zero_exact:
  assumes "wf9 b" "r < 9" "c < 9" "b ! r ! c \<noteq> 0"
  shows "zeros (set_cell b r c 0) = Suc (zeros b)"
proof -
  let ?Z = "{p \<in> set all_cells. cell b p = 0}"
  have eq: "{p \<in> set all_cells. cell (set_cell b r c 0) p = 0} = insert (r, c) ?Z"
    using assms by (auto simp: set_all_cells cell_def nth_set_cell split: if_splits)
  have "(r, c) \<notin> ?Z" using assms by (simp add: cell_def)
  then have "card (insert (r, c) ?Z) = Suc (card ?Z)" by simp
  then show ?thesis unfolding zeros_card eq .
qed

lemma completions_fewer_givens:
  assumes "\<forall>p \<in> set all_cells. cell b' p \<noteq> 0 \<longrightarrow> cell b' p = cell b p"
  shows "completions b \<subseteq> completions b'"
proof
  fix s assume "s \<in> completions b"
  then have sol: "solved_grid s" and ext: "extends b s" by (simp_all add: completions_def)
  have "extends b' s" unfolding extends_def
  proof (intro ballI impI)
    fix p assume p: "p \<in> set all_cells" "cell b' p \<noteq> 0"
    with assms have "cell b' p = cell b p" by blast
    with p ext show "cell s p = cell b' p" unfolding extends_def by fastforce
  qed
  with sol show "s \<in> completions b'" by (simp add: completions_def)
qed

lemma completions_clear_mono:
  assumes wf: "wf9 b" and q: "q \<in> set all_cells"
  shows "completions (set_cell b (fst q) (snd q) 0)
           \<subseteq> completions (set_cell (set_cell b r c 0) (fst q) (snd q) 0)"
proof (rule completions_fewer_givens, intro ballI impI)
  fix p assume p: "p \<in> set all_cells"
    and nz: "cell (set_cell (set_cell b r c 0) (fst q) (snd q) 0) p \<noteq> 0"
  have wf1: "wf9 (set_cell b r c 0)" using wf by (rule wf9_set_cell)
  from nz p wf1 have pq: "p \<noteq> q" by (auto simp: cell_set_cell)
  with nz p wf1 have "cell (set_cell b r c 0) p \<noteq> 0" by (simp add: cell_set_cell)
  with p wf have prc: "p \<noteq> (r, c)" by (auto simp: cell_set_cell)
  from p pq prc wf wf1 show "cell (set_cell (set_cell b r c 0) (fst q) (snd q) 0) p
      = cell (set_cell b (fst q) (snd q) 0) p"
    by (simp add: cell_set_cell)
qed

lemma agrees_completion:
  "solved_grid G \<Longrightarrow> agrees P G \<Longrightarrow> G \<in> completions P"
  by (simp add: completions_def agrees_extends)

lemma rejected_two_completions:
  assumes sol: "solved_grid G" and wf: "wf9 Q" and ag: "agrees Q G" and fuel: "81 < fuel"
    and probe: "countSolutions fuel Q = Some (n, b')" and n: "n \<noteq> 1"
  shows "2 \<le> card (completions Q)"
proof -
  have vp: "valid_partial Q" using sol wf ag by (rule agrees_valid_partial)
  have z: "zeros Q < fuel" using zeros_le_81 [of Q] fuel by simp
  from countSolutions_post [OF wf z] vp probe have "n = min 2 (card (completions Q))" by auto
  moreover have "G \<in> completions Q" using sol ag by (rule agrees_completion)
  then have "card (completions Q) \<noteq> 0" using finite_completions [of Q] by auto
  ultimately show ?thesis using n by (auto simp: min_def split: if_splits)
qed

lemma two_completions_count:
  assumes sol: "solved_grid G" and wf: "wf9 Q" and ag: "agrees Q G" and fuel: "81 < fuel"
    and two: "2 \<le> card (completions Q)"
  shows "\<exists>b'. countSolutions fuel Q = Some (2, b')"
proof -
  have vp: "valid_partial Q" using sol wf ag by (rule agrees_valid_partial)
  have z: "zeros Q < fuel" using zeros_le_81 [of Q] fuel by simp
  from countSolutions_post [OF wf z] vp obtain n b' where
    "countSolutions fuel Q = Some (n, b')" "n = min 2 (card (completions Q))" by blast
  with two show ?thesis by (simp add: min_def)
qed

lemma carve_loop_maximal:
  assumes fuel: "81 < fuel" and sol: "solved_grid G"
  shows "wf9 puzzle \<Longrightarrow> agrees puzzle G \<Longrightarrow> distinct cells \<Longrightarrow> set cells \<subseteq> set all_cells \<Longrightarrow>
    \<forall>p \<in> set cells. cell puzzle p \<noteq> 0 \<Longrightarrow>
    zeros puzzle = removed \<Longrightarrow> removed \<le> holes \<Longrightarrow>
    \<forall>p \<in> set all_cells. p \<notin> set cells \<longrightarrow> cell puzzle p \<noteq> 0 \<longrightarrow>
        2 \<le> card (completions (set_cell puzzle (fst p) (snd p) 0)) \<Longrightarrow>
    \<exists>P. carve_loop fuel holes cells puzzle removed = Some P \<and>
        (zeros P = holes \<or>
         (\<forall>p \<in> set all_cells. cell P p \<noteq> 0 \<longrightarrow>
            2 \<le> card (completions (set_cell P (fst p) (snd p) 0))))"
proof (induction cells arbitrary: puzzle removed)
  case Nil
  then show ?case by simp
next
  case (Cons p cells)
  obtain row col where p: "p = (row, col)" by (cases p)
  note wf = Cons.prems(1) and ag = Cons.prems(2)
  from Cons.prems(3) have dist: "distinct cells" and pnot: "p \<notin> set cells" by simp_all
  from Cons.prems(4) have sub: "set cells \<subseteq> set all_cells" and pin: "p \<in> set all_cells" by simp_all
  from pin p have rc: "row < 9" "col < 9" by (simp_all add: set_all_cells)
  from Cons.prems(5) have pnz: "cell puzzle p \<noteq> 0"
    and restnz: "\<forall>q \<in> set cells. cell puzzle q \<noteq> 0" by simp_all
  note rej = Cons.prems(8)
  show ?case
  proof (cases "holes \<le> removed")
    case True
    with Cons.prems(6,7) have "zeros puzzle = holes" by simp
    with True show ?thesis by (simp add: p)
  next
    case False
    let ?p1 = "set_cell puzzle row col 0"
    have wf1: "wf9 ?p1" using wf by (rule wf9_set_cell)
    have ag1: "agrees ?p1 G" using wf ag by (rule agrees_set_cell_zero)
    have "zeros ?p1 < fuel" using zeros_le_81 [of ?p1] fuel by simp
    with wf1 obtain n b' where probe: "countSolutions fuel ?p1 = Some (n, b')"
      using countSolutions_post by blast
    have undo: "set_cell ?p1 row col (puzzle ! row ! col) = puzzle" by (rule set_cell_restore)
    show ?thesis
    proof (cases "n = 1")
      case True
      have eq: "carve_loop fuel holes (p # cells) puzzle removed
                 = carve_loop fuel holes cells ?p1 (removed + 1)"
        using False True probe by (simp add: p Let_def)
      have nz1: "\<forall>q \<in> set cells. cell ?p1 q \<noteq> 0"
      proof
        fix q assume q: "q \<in> set cells"
        with pnot p have "q \<noteq> (row, col)" by auto
        moreover from q sub have "q \<in> set all_cells" by blast
        ultimately have "cell ?p1 q = cell puzzle q" using wf by (simp add: cell_set_cell)
        with restnz q show "cell ?p1 q \<noteq> 0" by simp
      qed
      have "puzzle ! row ! col \<noteq> 0" using pnz p by (simp add: cell_def)
      with wf rc have "zeros ?p1 = Suc (zeros puzzle)" by (intro zeros_set_cell_zero_exact)
      with Cons.prems(6) have z1: "zeros ?p1 = removed + 1" by simp
      from False have le1: "removed + 1 \<le> holes" by simp
      have rej1: "\<forall>q \<in> set all_cells. q \<notin> set cells \<longrightarrow> cell ?p1 q \<noteq> 0 \<longrightarrow>
          2 \<le> card (completions (set_cell ?p1 (fst q) (snd q) 0))"
      proof (intro ballI impI)
        fix q assume q: "q \<in> set all_cells" "q \<notin> set cells" "cell ?p1 q \<noteq> 0"
        from q(1,3) wf p have qp: "q \<noteq> p" by (auto simp: cell_set_cell)
        with q wf p have "cell puzzle q \<noteq> 0" by (simp add: cell_set_cell)
        moreover from qp q(2) have "q \<notin> set (p # cells)" by simp
        ultimately have "2 \<le> card (completions (set_cell puzzle (fst q) (snd q) 0))"
          using rej q(1) by blast
        also have "\<dots> \<le> card (completions (set_cell ?p1 (fst q) (snd q) 0))"
          by (rule card_mono [OF finite_completions completions_clear_mono [OF wf q(1)]])
        finally show "2 \<le> card (completions (set_cell ?p1 (fst q) (snd q) 0))" .
      qed
      from Cons.IH [OF wf1 ag1 dist sub nz1 z1 le1 rej1] show ?thesis by (simp only: eq)
    next
      case ne: False
      have eq: "carve_loop fuel holes (p # cells) puzzle removed
                 = carve_loop fuel holes cells puzzle removed"
        using False ne probe undo by (simp add: p Let_def)
      have two: "2 \<le> card (completions ?p1)"
        by (rule rejected_two_completions [OF sol wf1 ag1 fuel probe ne])
      have rej': "\<forall>q \<in> set all_cells. q \<notin> set cells \<longrightarrow> cell puzzle q \<noteq> 0 \<longrightarrow>
          2 \<le> card (completions (set_cell puzzle (fst q) (snd q) 0))"
      proof (intro ballI impI)
        fix q assume q: "q \<in> set all_cells" "q \<notin> set cells" "cell puzzle q \<noteq> 0"
        show "2 \<le> card (completions (set_cell puzzle (fst q) (snd q) 0))"
        proof (cases "q = p")
          case True
          with two p show ?thesis by simp
        next
          case False
          with q(2) have "q \<notin> set (p # cells)" by simp
          with rej q(1,3) show ?thesis by blast
        qed
      qed
      from Cons.IH [OF wf ag dist sub restnz Cons.prems(6,7) rej'] show ?thesis by (simp only: eq)
    qed
  qed
qed

lemma shuffle_all_cells_perm:
  assumes "shuffle all_cells g = (cells, g')"
  shows "distinct cells" "set cells = set all_cells"
proof -
  from shuffle_mset [of all_cells g] assms have m: "mset cells = mset all_cells" by simp
  then show "set cells = set all_cells" by (rule mset_eq_setD)
  from m distinct_all_cells show "distinct cells" by (metis mset_eq_imp_distinct_iff)
qed

lemma createPuzzle_maximal:
  assumes sol: "solved_grid G" and fuel: "81 < fuel"
    and cp: "createPuzzle fuel G holes g = Some (P, g')"
    and wfP: "wf9 P" and agP: "agrees P G"
  shows "zeros P = holes \<or>
         (\<forall>r < 9. \<forall>c < 9. P ! r ! c \<noteq> 0 \<longrightarrow>
            (\<exists>B'. countSolutions fuel (set_cell P r c 0) = Some (2, B')))"
proof -
  obtain cells g1 where sh: "shuffle all_cells g = (cells, g1)" by (cases "shuffle all_cells g")
  note perm = shuffle_all_cells_perm [OF sh]
  have wf: "wf9 G" using sol by (simp add: solved_grid_def)
  have a: "agrees G G" by (simp add: agrees_def)
  have nz: "\<forall>p \<in> set cells. cell G p \<noteq> 0"
    using sol perm(2) by (auto simp: solved_grid_def)
  have z: "zeros G = 0" using sol by (rule solved_grid_no_zero)
  have rej: "\<forall>p \<in> set all_cells. p \<notin> set cells \<longrightarrow> cell G p \<noteq> 0 \<longrightarrow>
      2 \<le> card (completions (set_cell G (fst p) (snd p) 0))"
    using perm(2) by simp
  have sub: "set cells \<subseteq> set all_cells" using perm(2) by simp
  from carve_loop_maximal [OF fuel sol wf a perm(1) sub nz z _ rej, of holes]
  obtain P' where P': "carve_loop fuel holes cells G 0 = Some P'"
    "zeros P' = holes \<or> (\<forall>p \<in> set all_cells. cell P' p \<noteq> 0 \<longrightarrow>
            2 \<le> card (completions (set_cell P' (fst p) (snd p) 0)))" by auto
  from cp P'(1) have "P' = P" by (simp add: createPuzzle_def sh)
  with P'(2) have disj: "zeros P = holes \<or> (\<forall>p \<in> set all_cells. cell P p \<noteq> 0 \<longrightarrow>
            2 \<le> card (completions (set_cell P (fst p) (snd p) 0)))" by simp
  show ?thesis
  proof (cases "zeros P = holes")
    case True
    then show ?thesis by simp
  next
    case False
    with disj have mx: "\<forall>p \<in> set all_cells. cell P p \<noteq> 0 \<longrightarrow>
            2 \<le> card (completions (set_cell P (fst p) (snd p) 0))" by simp
    have "\<exists>B'. countSolutions fuel (set_cell P r c 0) = Some (2, B')"
      if rc: "r < 9" "c < 9" and nzc: "P ! r ! c \<noteq> 0" for r c
    proof -
      from rc have "(r, c) \<in> set all_cells" by (simp add: set_all_cells)
      with mx nzc have "2 \<le> card (completions (set_cell P r c 0))" by (fastforce simp: cell_def)
      moreover have "wf9 (set_cell P r c 0)" using wfP by (rule wf9_set_cell)
      moreover have "agrees (set_cell P r c 0) G" using wfP agP by (rule agrees_set_cell_zero)
      ultimately show ?thesis using sol fuel by (intro two_completions_count)
    qed
    then show ?thesis by blast
  qed
qed

subsection \<open>The session\<close>

lemma set_cell_other: "(row, col) \<noteq> (r, c) \<Longrightarrow> set_cell b row col v ! r ! c = b ! r ! c"
proof (cases "row = r")
  case False
  then show ?thesis by (simp add: set_cell_def)
next
  case True
  assume "(row, col) \<noteq> (r, c)"
  with True have ne: "col \<noteq> c" by simp
  show ?thesis
  proof (cases "r < length b")
    case True
    with \<open>row = r\<close> ne show ?thesis by (simp add: set_cell_def)
  next
    case False
    with \<open>row = r\<close> show ?thesis by (simp add: set_cell_def list_update_beyond)
  qed
qed

lemma checkWinCondition_boards:
  "puzzleBoard (checkWinCondition s) = puzzleBoard s"
  "initialPuzzle (checkWinCondition s) = initialPuzzle s"
  "solvedBoard (checkWinCondition s) = solvedBoard s"
  by (simp_all add: checkWinCondition_def setStatusMessage_def split: option.split)

lemma given_noop:
  assumes "selectedCell s = Some (r, c)" "initialPuzzle s ! r ! c \<noteq> 0"
  shows "keydown key s = s" "num_btn_click v s = s" "clear_btn_click s = s"
  using assms by (simp_all add: keydown_def num_btn_click_def clear_btn_click_def)

lemma handle_event_given:
  assumes "initialPuzzle s ! r ! c \<noteq> 0"
  shows "puzzleBoard (handle_event s e) ! r ! c = puzzleBoard s ! r ! c \<and>
         initialPuzzle (handle_event s e) = initialPuzzle s"
proof (cases "selectedCell s")
  case None
  then show ?thesis
    by (cases e) (simp_all add: keydown_def num_btn_click_def clear_btn_click_def
        cell_click_def handleCellClick_def split: prod.split)
next
  case (Some p)
  obtain row col where p: "p = (row, col)" by (cases p)
  show ?thesis
  proof (cases "(row, col) = (r, c)")
    case True
    with Some p assms show ?thesis
      by (cases e) (simp_all add: keydown_def num_btn_click_def clear_btn_click_def
          cell_click_def handleCellClick_def split: prod.split)
  next
    case False
    then have "\<And>v. set_cell (puzzleBoard s) row col v ! r ! c = puzzleBoard s ! r ! c"
      by (rule set_cell_other)
    with Some p show ?thesis
      by (cases e) (simp_all add: keydown_def num_btn_click_def clear_btn_click_def
          cell_click_def handleCellClick_def checkWinCondition_boards split: prod.split option.split)
  qed
qed

lemma run_events_given:
  "initialPuzzle s ! r ! c \<noteq> 0 \<Longrightarrow>
   puzzleBoard (foldl handle_event s es) ! r ! c = puzzleBoard s ! r ! c \<and>
   initialPuzzle (foldl handle_event s es) = initialPuzzle s"
proof (induction es arbitrary: s)
  case Nil
  show ?case by simp
next
  case (Cons e es)
  from handle_event_given [OF Cons.prems, of e]
  have 1: "puzzleBoard (handle_event s e) ! r ! c = puzzleBoard s ! r ! c"
    and 2: "initialPuzzle (handle_event s e) = initialPuzzle s" by simp_all
  from 2 Cons.prems have "initialPuzzle (handle_event s e) ! r ! c \<noteq> 0" by simp
  from Cons.IH [OF this] 1 2 show ?case by simp
qed

lemma find_win_None:
  "find (\<lambda>(i, j). P ! i ! j = 0 \<or> P ! i ! j \<noteq> S ! i ! j) all_cells = None \<longleftrightarrow>
   (\<forall>i < 9. \<forall>j < 9. P ! i ! j \<noteq> 0) \<and> (\<forall>i < 9. \<forall>j < 9. P ! i ! j = (S ! i ! j :: nat))"
  unfolding find_None_iff set_all_cells by auto

lemma checkAnswers_loop_iff:
  "checkAnswers_loop s cells h \<longleftrightarrow>
     h \<or> (\<exists>(i, j) \<in> set cells. initialPuzzle s ! i ! j = 0 \<and> puzzleBoard s ! i ! j \<noteq> 0
            \<and> puzzleBoard s ! i ! j \<noteq> solvedBoard s ! i ! j)"
  by (induction s cells h rule: checkAnswers_loop.induct) auto

lemma hasErrors_iff: "checkAnswers_loop s all_cells False \<longleftrightarrow> error_positions s \<noteq> {}"
  unfolding checkAnswers_loop_iff error_positions_def
  by (auto simp: filter_empty_conv)

subsection \<open>The empty board, termination, a new game\<close>

lemma cell_empty_board:
  "p \<in> set all_cells \<Longrightarrow> cell (replicate 9 (replicate 9 0)) p = 0"
  by (cases p) (simp add: set_all_cells cell_def)

lemma wf9_empty_board: "wf9 (replicate 9 (replicate 9 0))"
  by (simp add: wf9_def)

lemma valid_partial_empty_board: "valid_partial (replicate 9 (replicate 9 0))"
  by (simp add: valid_partial_def wf9_empty_board consistent_def cell_empty_board)

lemma example_completes_empty_board: "example_grid \<in> completions (replicate 9 (replicate 9 0))"
  by (simp add: completions_def solved_example_grid extends_def cell_empty_board)

lemma generate_empty_board:
  assumes "81 < fuel"
  shows "\<exists>G g'. generateSolvedSudokuGrid fuel (replicate 9 (replicate 9 0)) g = Some (True, G, g')
            \<and> solved_grid G"
proof -
  let ?e = "replicate 9 (replicate 9 0) :: board"
  have "zeros ?e < fuel" using zeros_le_81 [of ?e] assms by simp
  from generate_post_generate [OF wf9_empty_board this, of g] valid_partial_empty_board
  obtain ok G g' where res: "generateSolvedSudokuGrid fuel ?e g = Some (ok, G, g')"
    and ok: "ok \<longrightarrow> G \<in> completions ?e" and nok: "\<not> ok \<longrightarrow> completions ?e = {}"
    unfolding generate_post_def by blast
  from nok example_completes_empty_board have ok by blast
  with ok have "solved_grid G" by (simp add: completions_def)
  with res \<open>ok\<close> show ?thesis by simp
qed

lemma generate_terminates:
  assumes "wf9 B" "81 < fuel"
  shows "\<exists>res. generateSolvedSudokuGrid fuel B g = Some res"
proof -
  have "zeros B < fuel" using zeros_le_81 [of B] assms(2) by simp
  from generate_post_generate [OF assms(1) this, of g] show ?thesis
    unfolding generate_post_def by blast
qed

lemma countSolutions_terminates:
  assumes "wf9 B" "81 < fuel"
  shows "\<exists>res. countSolutions fuel B = Some res"
proof -
  have "zeros B < fuel" using zeros_le_81 [of B] assms(2) by simp
  from countSolutions_post [OF assms(1) this] show ?thesis by blast
qed

lemma createPuzzle_terminates:
  assumes "wf9 B" "81 < fuel"
  shows "\<exists>res. createPuzzle fuel B holes g = Some res"
proof -
  obtain cells g' where sh: "shuffle all_cells g = (cells, g')" by (cases "shuffle all_cells g")
  from carve_loop_terminates [OF assms(2) assms(1), of holes cells 0]
  obtain P where "carve_loop fuel holes cells B 0 = Some P" by blast
  then show ?thesis by (simp add: createPuzzle_def sh)
qed

lemma error_positions_fresh: "puzzleBoard s = initialPuzzle s \<Longrightarrow> error_positions s = {}"
  by (auto simp: error_positions_def filter_empty_conv)

lemma initializeGame_props:
  assumes "81 < fuel"
  shows "\<exists>s' g'. initializeGame fuel holes g s = Some (s', g') \<and> solved_grid (solvedBoard s')
           \<and> puzzleBoard s' = initialPuzzle s' \<and> agrees (initialPuzzle s') (solvedBoard s')
           \<and> completions (initialPuzzle s') = {solvedBoard s'}"
proof -
  let ?h = "case holes of None \<Rightarrow> 40 | Some h \<Rightarrow> h"
  from generate_empty_board [OF assms, of g] obtain G g1 where
    gen: "generateSolvedSudokuGrid fuel (replicate 9 (replicate 9 0)) g = Some (True, G, g1)"
    and sol: "solved_grid G" by blast
  from createPuzzle_props [OF sol assms, of ?h g1] obtain P g2 where
    cp: "createPuzzle fuel G ?h g1 = Some (P, g2)" and P: "wf9 P" "countSolutions fuel P = Some (1, P)"
    "agrees P G" by blast
  have "completions P = {G}" by (rule count_one_unique [OF sol P(1) P(3) P(2) assms])
  with gen cp sol P show ?thesis by (simp add: initializeGame_def)
qed

subsection \<open>The store\<close>

lemma read_write_cell:
  assumes "board_at h refs" "i < 9"
  shows "read_board (write_cell h refs i j v) refs = set_cell (read_board h refs) i j v"
proof (rule nth_equalityI)
  show "length (read_board (write_cell h refs i j v) refs) = length (set_cell (read_board h refs) i j v)"
    by (simp add: read_board_def set_cell_def)
  fix k assume "k < length (read_board (write_cell h refs i j v) refs)"
  then have k: "k < length refs" by (simp add: read_board_def)
  from assms have i: "i < length refs" and d: "distinct refs" and lt: "refs ! i < length h"
    by (auto simp: board_at_def)
  have "(refs ! k = refs ! i) = (k = i)" using d k i by (simp add: nth_eq_iff_index_eq)
  then show "read_board (write_cell h refs i j v) refs ! k = set_cell (read_board h refs) i j v ! k"
    using k i lt by (cases "k = i") (simp_all add: read_board_def write_cell_def set_cell_def)
qed

lemma write_cell_frame:
  assumes "board_at h refs" "i < 9"
  shows "length (write_cell h refs i j v) = length h"
    and "a \<notin> set refs \<Longrightarrow> write_cell h refs i j v ! a = h ! a"
    and "board_at (write_cell h refs i j v) refs"
proof -
  show "length (write_cell h refs i j v) = length h" by (simp add: write_cell_def)
  from assms have "refs ! i \<in> set refs" by (simp add: board_at_def)
  then have "a \<notin> set refs \<Longrightarrow> refs ! i \<noteq> a" by blast
  then show "a \<notin> set refs \<Longrightarrow> write_cell h refs i j v ! a = h ! a"
    by (simp add: write_cell_def)
  show "board_at (write_cell h refs i j v) refs"
    using assms(1) by (simp add: board_at_def write_cell_def)
qed

lemma board_at_same_length: "board_at h refs \<Longrightarrow> length h' = length h \<Longrightarrow> board_at h' refs"
  by (simp add: board_at_def)

lemma agree_run_transfer:
  assumes "agree_run h2 refs v r" "length h2 = length h"
    "\<forall>a < length h. a \<notin> set refs \<longrightarrow> h2 ! a = h ! a"
  shows "agree_run h refs v r"
proof (cases v)
  case None
  with assms(1) show ?thesis by (simp add: agree_run_def)
next
  case (Some p)
  obtain b' n where p: "p = (b', n)" by (cases p)
  with Some assms(1) obtain h' where h': "r = Some (h', n)" "read_board h' refs = b'"
    "length h' = length h2" "\<forall>a < length h2. a \<notin> set refs \<longrightarrow> h' ! a = h2 ! a"
    by (auto simp: agree_run_def)
  with assms(2,3) have "length h' = length h" "\<forall>a < length h. a \<notin> set refs \<longrightarrow> h' ! a = h ! a"
    by simp_all
  with h'(1,2) Some p show ?thesis by (simp add: agree_run_def)
qed

lemma solve_loop_agree:
  assumes IH: "\<And>cnt h. board_at h refs \<Longrightarrow>
                 agree_run h refs (solve fuel (read_board h refs) cnt) (solve_h fuel refs cnt h)"
    and row: "row < 9"
  shows "board_at h refs \<Longrightarrow>
         agree_run h refs (solve_loop fuel row col nums (read_board h refs) cnt)
           (solve_loop_h fuel row col nums refs cnt h)"
proof (induction nums arbitrary: cnt h)
  case Nil
  show ?case by (simp add: agree_run_def)
next
  case (Cons num nums)
  let ?b = "read_board h refs"
  show ?case
  proof (cases "isValidPlacement ?b num (row, col)")
    case False
    with Cons.IH [OF Cons.prems, of cnt] show ?thesis by simp
  next
    case True
    let ?h1 = "write_cell h refs row col num"
    have r1: "read_board ?h1 refs = set_cell ?b row col num"
      using Cons.prems row by (rule read_write_cell)
    have at1: "board_at ?h1 refs" using Cons.prems row by (rule write_cell_frame)
    have len1: "length ?h1 = length h" using Cons.prems row by (rule write_cell_frame)
    have fr1: "\<forall>a < length h. a \<notin> set refs \<longrightarrow> ?h1 ! a = h ! a"
      using write_cell_frame(2) [OF Cons.prems row] by blast
    note inner = IH [OF at1, of cnt, unfolded r1]
    show ?thesis
    proof (cases "solve fuel (set_cell ?b row col num) cnt")
      case None
      with inner have "solve_h fuel refs cnt ?h1 = None" by (simp add: agree_run_def)
      with None True show ?thesis by (simp add: agree_run_def)
    next
      case (Some p)
      obtain b1' n1 where p: "p = (b1', n1)" by (cases p)
      with Some inner obtain h1' where h1': "solve_h fuel refs cnt ?h1 = Some (h1', n1)"
        "read_board h1' refs = b1'" "length h1' = length ?h1"
        "\<forall>a < length ?h1. a \<notin> set refs \<longrightarrow> h1' ! a = ?h1 ! a"
        by (auto simp: agree_run_def)
      from h1'(3,4) len1 fr1 have len1': "length h1' = length h"
        and fr1': "\<forall>a < length h. a \<notin> set refs \<longrightarrow> h1' ! a = h ! a" by simp_all
      show ?thesis
      proof (cases "1 < n1")
        case gt: True
        have "solve_loop fuel row col (num # nums) ?b cnt = Some (b1', n1)"
          using True Some p gt by simp
        moreover have "solve_loop_h fuel row col (num # nums) refs cnt h = Some (h1', n1)"
          using True h1'(1) gt by simp
        ultimately show ?thesis using h1'(2) len1' fr1' by (simp add: agree_run_def)
      next
        case le: False
        let ?h2 = "write_cell h1' refs row col 0"
        have at1': "board_at h1' refs" using at1 h1'(3) by (rule board_at_same_length)
        have r2: "read_board ?h2 refs = set_cell b1' row col 0"
          using read_write_cell [OF at1' row, of col 0] h1'(2) by simp
        have at2: "board_at ?h2 refs" using at1' row by (rule write_cell_frame)
        have len2: "length ?h2 = length h"
          using write_cell_frame(1) [OF at1' row, of col 0] len1' by simp
        have fr2: "\<forall>a < length h. a \<notin> set refs \<longrightarrow> ?h2 ! a = h ! a"
          using write_cell_frame(2) [OF at1' row] fr1' by simp
        have v: "solve_loop fuel row col (num # nums) ?b cnt
                  = solve_loop fuel row col nums (set_cell b1' row col 0) n1"
          using True Some p le by simp
        have s: "solve_loop_h fuel row col (num # nums) refs cnt h
                  = solve_loop_h fuel row col nums refs n1 ?h2"
          using True h1'(1) le by simp
        from Cons.IH [OF at2, of n1] have "agree_run ?h2 refs
            (solve_loop fuel row col nums (set_cell b1' row col 0) n1)
            (solve_loop_h fuel row col nums refs n1 ?h2)" by (simp only: r2)
        then show ?thesis unfolding v s using len2 fr2 by (rule agree_run_transfer)
      qed
    qed
  qed
qed

lemma solve_agree:
  "board_at h refs \<Longrightarrow>
   agree_run h refs (solve fuel (read_board h refs) cnt) (solve_h fuel refs cnt h)"
proof (induction fuel arbitrary: cnt h)
  case 0
  show ?case by (simp add: agree_run_def)
next
  case (Suc fuel)
  show ?case
  proof (cases "findEmptyCell (read_board h refs)")
    case None
    then show ?thesis by (simp add: agree_run_def)
  next
    case (Some p)
    obtain row col where p: "p = (row, col)" by (cases p)
    with Some have "row < 9" by (auto dest: findEmptyCell_Some)
    from solve_loop_agree [OF Suc.IH this Suc.prems, of col "[1..<10]" cnt]
    show ?thesis using Some p by simp
  qed
qed

lemma countSolutions_agree:
  assumes "board_at h refs"
  shows "case countSolutions fuel (read_board h refs) of
           None \<Rightarrow> countSolutions_h fuel refs h = None
         | Some (n, b') \<Rightarrow>
             (\<exists>h'. countSolutions_h fuel refs h = Some (n, h') \<and> read_board h' refs = b' \<and>
                length h' = length h \<and> (\<forall>a < length h. a \<notin> set refs \<longrightarrow> h' ! a = h ! a))"
  using solve_agree [OF assms, of fuel 0]
  by (auto simp: agree_run_def countSolutions_def countSolutions_h_def split: option.splits)

lemma copyBoard_h_eq:
  "\<forall>a \<in> set refs. a < length h \<Longrightarrow>
   copyBoard_h h refs = ([length h..<length h + length refs], h @ map (\<lambda>a. h ! a) refs)"
proof (induction refs arbitrary: h)
  case Nil
  show ?case by simp
next
  case (Cons a as)
  let ?h1 = "h @ [h ! a]"
  from Cons.prems have lt: "\<forall>a' \<in> set as. a' < length h" by simp
  then have "\<forall>a' \<in> set as. a' < length ?h1" by auto
  from Cons.IH [OF this] have
    "copyBoard_h ?h1 as = ([length ?h1..<length ?h1 + length as], ?h1 @ map (\<lambda>a. ?h1 ! a) as)" .
  moreover have "map (\<lambda>a. ?h1 ! a) as = map (\<lambda>a. h ! a) as"
    using lt by (simp add: nth_append)
  moreover have "length h # [length ?h1..<length ?h1 + length as]
      = [length h..<length h + length (a # as)]"
  proof -
    have "[length h..<length h + Suc (length as)]
        = length h # [Suc (length h)..<length h + Suc (length as)]"
      by (rule upt_conv_Cons) simp
    then show ?thesis by simp
  qed
  ultimately show ?case by simp
qed

lemma board_at_longer: "board_at h refs \<Longrightarrow> length h \<le> length h' \<Longrightarrow> board_at h' refs"
  by (auto simp: board_at_def)

lemma read_board_cong:
  "\<forall>a \<in> set refs. h' ! a = h ! a \<Longrightarrow> read_board h' refs = read_board h refs"
  by (simp add: read_board_def)

lemma copyBoard_h_props:
  assumes "board_at h refs" "copyBoard_h h refs = (fresh, h')"
  shows "fresh = [length h..<length h + 9]" "board_at h' fresh"
    "read_board h' fresh = read_board h refs"
    "length h' = length h + 9" "\<forall>a < length h. h' ! a = h ! a"
proof -
  from assms(1) have len: "length refs = 9" and lt: "\<forall>a \<in> set refs. a < length h"
    by (simp_all add: board_at_def)
  from copyBoard_h_eq [OF lt] assms(2) len
  have f: "fresh = [length h..<length h + 9]" and h': "h' = h @ map (\<lambda>a. h ! a) refs" by simp_all
  show "fresh = [length h..<length h + 9]" by (rule f)
  show "length h' = length h + 9" using h' len by simp
  then show "board_at h' fresh" unfolding f by (simp add: board_at_def)
  show "\<forall>a < length h. h' ! a = h ! a" using h' by (simp add: nth_append)
  show "read_board h' fresh = read_board h refs"
  proof (rule nth_equalityI)
    show "length (read_board h' fresh) = length (read_board h refs)"
      using f len by (simp add: read_board_def)
    fix k assume "k < length (read_board h' fresh)"
    then have k: "k < 9" using f by (simp add: read_board_def)
    then show "read_board h' fresh ! k = read_board h refs ! k"
      using f h' len by (simp add: read_board_def nth_append)
  qed
qed

lemma probe_h_agree:
  assumes "board_at h puzzle"
  shows "case countSolutions fuel (read_board h puzzle) of
           None \<Rightarrow> probe_h fuel puzzle h = None
         | Some (n, b') \<Rightarrow>
             (\<exists>h'. probe_h fuel puzzle h = Some (n, h') \<and> length h' = length h + 9 \<and>
                (\<forall>a < length h. h' ! a = h ! a) \<and>
                read_board h' [length h..<length h + 9] = b')"
proof -
  obtain fresh h1 where cp: "copyBoard_h h puzzle = (fresh, h1)" by (cases "copyBoard_h h puzzle")
  note c = copyBoard_h_props [OF assms cp]
  have disj: "a \<notin> set fresh" if "a < length h" for a using that c(1) by simp
  note run = countSolutions_agree [OF c(2), of fuel, unfolded c(3)]
  show ?thesis
  proof (cases "countSolutions fuel (read_board h puzzle)")
    case None
    with run show ?thesis by (simp add: probe_h_def cp)
  next
    case (Some p)
    obtain n b' where p: "p = (n, b')" by (cases p)
    with Some run obtain h' where h': "countSolutions_h fuel fresh h1 = Some (n, h')"
      "read_board h' fresh = b'" "length h' = length h1"
      "\<forall>a < length h1. a \<notin> set fresh \<longrightarrow> h' ! a = h1 ! a" by auto
    have "\<forall>a < length h. h' ! a = h ! a"
      using h'(4) c(4,5) disj by simp
    with h' c(1,4) Some p show ?thesis by (simp add: probe_h_def cp)
  qed
qed

lemma read_board_nth:
  "board_at h refs \<Longrightarrow> i < 9 \<Longrightarrow> read_board h refs ! i ! j = h ! (refs ! i) ! j"
  by (simp add: read_board_def board_at_def)

lemma frame_trans:
  assumes "\<forall>a < length h1. a \<notin> S \<longrightarrow> h2 ! a = h1 ! a"
    and "\<forall>a < length h0. a \<notin> S \<longrightarrow> h1 ! a = (h0 ! a :: 'a)"
    and "length h0 \<le> length h1"
  shows "\<forall>a < length h0. a \<notin> S \<longrightarrow> h2 ! a = h0 ! a"
proof (intro allI impI)
  fix a assume a: "a < length h0" "a \<notin> S"
  with assms(3) have "a < length h1" by simp
  with assms(1) a(2) have "h2 ! a = h1 ! a" by blast
  also from assms(2) a have "h1 ! a = h0 ! a" by blast
  finally show "h2 ! a = h0 ! a" .
qed

lemma carve_loop_agree:
  assumes rows: "\<forall>(row, col) \<in> set cells. row < 9"
  shows "board_at h puzzle \<Longrightarrow>
    (case carve_loop fuel holes cells (read_board h puzzle) removed of
       None \<Rightarrow> carve_loop_h fuel holes cells puzzle removed h = None
     | Some P \<Rightarrow>
         (\<exists>h'. carve_loop_h fuel holes cells puzzle removed h = Some h' \<and>
            read_board h' puzzle = P \<and> length h \<le> length h' \<and>
            (\<forall>a < length h. a \<notin> set puzzle \<longrightarrow> h' ! a = h ! a)))"
  using rows
proof (induction cells arbitrary: h removed)
  case Nil
  show ?case by simp
next
  case (Cons p cells)
  obtain row col where p: "p = (row, col)" by (cases p)
  with Cons.prems have row: "row < 9" and rest: "\<forall>(row, col) \<in> set cells. row < 9" by auto
  note at = Cons.prems(1)
  let ?b = "read_board h puzzle"
  show ?case
  proof (cases "holes \<le> removed")
    case True
    then show ?thesis by (simp add: p)
  next
    case False
    let ?h1 = "write_cell h puzzle row col 0"
    have temp: "h ! (puzzle ! row) ! col = ?b ! row ! col"
      using at row by (simp add: read_board_nth)
    have r1: "read_board ?h1 puzzle = set_cell ?b row col 0" using at row by (rule read_write_cell)
    have at1: "board_at ?h1 puzzle" using at row by (rule write_cell_frame)
    have len1: "length ?h1 = length h" using at row by (rule write_cell_frame)
    have fr1: "\<forall>a < length h. a \<notin> set puzzle \<longrightarrow> ?h1 ! a = h ! a"
      using write_cell_frame(2) [OF at row] by blast
    note pr = probe_h_agree [OF at1, of fuel, unfolded r1]
    show ?thesis
    proof (cases "countSolutions fuel (set_cell ?b row col 0)")
      case None
      with pr have "probe_h fuel puzzle ?h1 = None" by simp
      with None False show ?thesis by (simp add: p Let_def)
    next
      case (Some q)
      obtain n b' where q: "q = (n, b')" by (cases q)
      with Some pr obtain h2 where h2: "probe_h fuel puzzle ?h1 = Some (n, h2)"
        "length h2 = length ?h1 + 9" "\<forall>a < length ?h1. h2 ! a = ?h1 ! a" by auto
      have "length ?h1 \<le> length h2" using h2(2) by simp
      with at1 have at2: "board_at h2 puzzle" by (rule board_at_longer)
      have "\<forall>a \<in> set puzzle. h2 ! a = ?h1 ! a" using h2(3) at1 by (simp add: board_at_def)
      then have r2: "read_board h2 puzzle = set_cell ?b row col 0"
        using r1 read_board_cong [of puzzle h2 ?h1] by simp
      have len2: "length h \<le> length h2" using h2(2) len1 by simp
      have "\<forall>a < length ?h1. a \<notin> set puzzle \<longrightarrow> h2 ! a = ?h1 ! a" using h2(3) by blast
      from frame_trans [OF this fr1] len1
      have fr2: "\<forall>a < length h. a \<notin> set puzzle \<longrightarrow> h2 ! a = h ! a" by simp
      show ?thesis
      proof (cases "n = 1")
        case True
        have v: "carve_loop fuel holes (p # cells) ?b removed
                  = carve_loop fuel holes cells (set_cell ?b row col 0) (removed + 1)"
          using False Some q True by (simp add: p Let_def)
        have s: "carve_loop_h fuel holes (p # cells) puzzle removed h
                  = carve_loop_h fuel holes cells puzzle (removed + 1) h2"
          using False h2(1) True by (simp add: p Let_def)
        note ih = Cons.IH [OF at2 rest, of "removed + 1", unfolded r2]
        have "case carve_loop fuel holes cells (set_cell ?b row col 0) (removed + 1) of
            None \<Rightarrow> carve_loop_h fuel holes cells puzzle (removed + 1) h2 = None
          | Some P \<Rightarrow>
             (\<exists>h'. carve_loop_h fuel holes cells puzzle (removed + 1) h2 = Some h' \<and>
                read_board h' puzzle = P \<and> length h \<le> length h' \<and>
                (\<forall>a < length h. a \<notin> set puzzle \<longrightarrow> h' ! a = h ! a))" (is ?goal)
        proof (cases "carve_loop fuel holes cells (set_cell ?b row col 0) (removed + 1)")
          case None
          with ih show ?goal by simp
        next
          case (Some P)
          with ih obtain h' where h': "carve_loop_h fuel holes cells puzzle (removed + 1) h2 = Some h'"
            "read_board h' puzzle = P" "length h2 \<le> length h'"
            "\<forall>a < length h2. a \<notin> set puzzle \<longrightarrow> h' ! a = h2 ! a" by auto
          from h'(3) len2 have "length h \<le> length h'" by simp
          moreover note frame_trans [OF h'(4) fr2 len2]
          ultimately show ?goal using h'(1,2) Some by simp
        qed
        then show ?thesis by (simp only: v s)
      next
        case ne: False
        let ?h3 = "write_cell h2 puzzle row col (h ! (puzzle ! row) ! col)"
        have r3: "read_board ?h3 puzzle = set_cell (set_cell ?b row col 0) row col (?b ! row ! col)"
          using read_write_cell [OF at2 row, of col "h ! (puzzle ! row) ! col"] r2 temp by simp
        have at3: "board_at ?h3 puzzle" using at2 row by (rule write_cell_frame)
        have len3: "length h \<le> length ?h3"
          using write_cell_frame(1) [OF at2 row, of col "h ! (puzzle ! row) ! col"] len2 by simp
        have fr3: "\<forall>a < length h. a \<notin> set puzzle \<longrightarrow> ?h3 ! a = h ! a"
        proof (intro allI impI)
          fix a assume a: "a < length h" "a \<notin> set puzzle"
          from a(2) have "?h3 ! a = h2 ! a" by (rule write_cell_frame(2) [OF at2 row])
          with fr2 a show "?h3 ! a = h ! a" by simp
        qed
        have v: "carve_loop fuel holes (p # cells) ?b removed
                  = carve_loop fuel holes cells
                      (set_cell (set_cell ?b row col 0) row col (?b ! row ! col)) removed"
          using False Some q ne by (simp add: p Let_def)
        have s: "carve_loop_h fuel holes (p # cells) puzzle removed h
                  = carve_loop_h fuel holes cells puzzle removed ?h3"
          using False h2(1) ne by (simp add: p Let_def)
        note ih = Cons.IH [OF at3 rest, of removed, unfolded r3]
        have "case carve_loop fuel holes cells
                 (set_cell (set_cell ?b row col 0) row col (?b ! row ! col)) removed of
            None \<Rightarrow> carve_loop_h fuel holes cells puzzle removed ?h3 = None
          | Some P \<Rightarrow>
             (\<exists>h'. carve_loop_h fuel holes cells puzzle removed ?h3 = Some h' \<and>
                read_board h' puzzle = P \<and> length h \<le> length h' \<and>
                (\<forall>a < length h. a \<notin> set puzzle \<longrightarrow> h' ! a = h ! a))" (is ?goal)
        proof (cases "carve_loop fuel holes cells
                      (set_cell (set_cell ?b row col 0) row col (?b ! row ! col)) removed")
          case None
          with ih show ?goal by simp
        next
          case (Some P)
          with ih obtain h' where h': "carve_loop_h fuel holes cells puzzle removed ?h3 = Some h'"
            "read_board h' puzzle = P" "length ?h3 \<le> length h'"
            "\<forall>a < length ?h3. a \<notin> set puzzle \<longrightarrow> h' ! a = ?h3 ! a" by auto
          from h'(3) len3 have "length h \<le> length h'" by simp
          moreover note frame_trans [OF h'(4) fr3 len3]
          ultimately show ?goal using h'(1,2) Some by simp
        qed
        then show ?thesis by (simp only: v s)
      qed
    qed
  qed
qed

lemma shuffle_all_cells_rows:
  "shuffle all_cells g = (cells, g') \<Longrightarrow> \<forall>(row, col) \<in> set cells. row < 9"
  using shuffle_set [of all_cells g] by (auto simp: set_all_cells)

lemma createPuzzle_agree:
  assumes "board_at h board"
  shows "case createPuzzle fuel (read_board h board) holes g of
           None \<Rightarrow> createPuzzle_h fuel board holes g h = None
         | Some (P, g') \<Rightarrow>
             (\<exists>puzzle h'. createPuzzle_h fuel board holes g h = Some (puzzle, g', h') \<and>
                read_board h' puzzle = P \<and> read_board h' board = read_board h board)"
proof -
  obtain fresh h1 where cp: "copyBoard_h h board = (fresh, h1)" by (cases "copyBoard_h h board")
  note c = copyBoard_h_props [OF assms cp]
  obtain cells g' where sh: "shuffle all_cells g = (cells, g')" by (cases "shuffle all_cells g")
  note sim = carve_loop_agree [OF shuffle_all_cells_rows [OF sh] c(2), of fuel holes 0, unfolded c(3)]
  have old: "a < length h \<and> a \<notin> set fresh" if "a \<in> set board" for a
    using that assms c(1) by (auto simp: board_at_def)
  show ?thesis
  proof (cases "carve_loop fuel holes cells (read_board h board) 0")
    case None
    with sim show ?thesis by (simp add: createPuzzle_def createPuzzle_h_def cp sh)
  next
    case (Some P)
    with sim obtain h2 where h2: "carve_loop_h fuel holes cells fresh 0 h1 = Some h2"
      "read_board h2 fresh = P" "\<forall>a < length h1. a \<notin> set fresh \<longrightarrow> h2 ! a = h1 ! a" by auto
    have "\<forall>a \<in> set board. h2 ! a = h ! a"
    proof
      fix a assume "a \<in> set board"
      from old [OF this] have a: "a < length h" "a \<notin> set fresh" by simp_all
      with c(4) have "a < length h1" by simp
      with h2(3) a(2) have "h2 ! a = h1 ! a" by blast
      with c(5) a(1) show "h2 ! a = h ! a" by simp
    qed
    then have "read_board h2 board = read_board h board" by (rule read_board_cong)
    with h2 Some show ?thesis by (simp add: createPuzzle_def createPuzzle_h_def cp sh)
  qed
qed

lemma countSolutions_h_post:
  assumes at: "board_at h refs" and vp: "valid_partial (read_board h refs)"
    and z: "zeros (read_board h refs) < fuel"
  shows "\<exists>n h'. countSolutions_h fuel refs h = Some (n, h') \<and>
           (n \<le> 1 \<longrightarrow> read_board h' refs = read_board h refs) \<and>
           (1 < n \<longrightarrow> read_board h' refs \<in> completions (read_board h refs) \<and>
                     read_board h' refs \<noteq> read_board h refs)"
proof -
  let ?b = "read_board h refs"
  from vp have wf: "wf9 ?b" by (simp add: valid_partial_def)
  from countSolutions_post [OF wf z] vp obtain n b' where
    v: "countSolutions fuel ?b = Some (n, b')" "n \<le> 1 \<longrightarrow> b' = ?b"
    "1 < n \<longrightarrow> b' \<in> completions ?b" by blast
  from countSolutions_agree [OF at, of fuel] v(1) obtain h' where
    h': "countSolutions_h fuel refs h = Some (n, h')" "read_board h' refs = b'" by auto
  have "b' \<noteq> ?b" if n: "1 < n"
  proof
    assume eq: "b' = ?b"
    with v(3) n have "solved_grid ?b" by (simp add: completions_def)
    moreover from z obtain k where "fuel = Suc k" by (cases fuel) auto
    ultimately have "countSolutions fuel ?b = Some (1, ?b)" by (simp add: solved_grid_count)
    with v(1) n show False by simp
  qed
  with h' v(2,3) show ?thesis by auto
qed

lemma probe_h_frame:
  assumes at: "board_at h puzzle" and wf: "wf9 (read_board h puzzle)"
    and z: "zeros (read_board h puzzle) < fuel"
  shows "\<exists>n h'. probe_h fuel puzzle h = Some (n, h') \<and>
           (\<exists>b'. countSolutions fuel (read_board h puzzle) = Some (n, b')) \<and>
           (\<forall>a < length h. h' ! a = h ! a) \<and>
           read_board h' puzzle = read_board h puzzle"
proof -
  from countSolutions_post [OF wf z] obtain n b' where
    v: "countSolutions fuel (read_board h puzzle) = Some (n, b')" by blast
  with probe_h_agree [OF at, of fuel] obtain h' where
    h': "probe_h fuel puzzle h = Some (n, h')" "\<forall>a < length h. h' ! a = h ! a" by auto
  from at h'(2) have "\<forall>a \<in> set puzzle. h' ! a = h ! a" by (simp add: board_at_def)
  then have "read_board h' puzzle = read_board h puzzle" by (rule read_board_cong)
  with h' v show ?thesis by blast
qed

subsection \<open>The example boards\<close>

lemma valid_partial_example_puzzle: "valid_partial example_puzzle"
proof (rule agrees_valid_partial [OF solved_example_grid])
  show "wf9 example_puzzle" by code_simp
  show "agrees example_puzzle example_grid" unfolding agrees_extends by code_simp
qed

lemma valid_partial_twin_puzzle: "valid_partial twin_puzzle"
proof (rule agrees_valid_partial [OF solved_example_grid])
  show "wf9 twin_puzzle" by code_simp
  show "agrees twin_puzzle example_grid" unfolding agrees_extends by code_simp
qed

section \<open>The claims\<close>

text \<open>
  C1.  For every solved grid \<open>G\<close> and every hole count, \<^verbatim>\<open>createPuzzle(G, holes)\<close> returns
  a board \<open>P\<close> on which \<^verbatim>\<open>countSolutions\<close> returns 1, whose non-zero cells are those of
  \<open>G\<close>, and which has at most \<open>holes\<close> zero cells.  It has exactly \<open>holes\<close> zero cells
  unless no further removal preserves uniqueness: then clearing any non-zero cell of
  \<open>P\<close> makes \<^verbatim>\<open>countSolutions\<close> return 2.  (\<open>G\<close> is the only completion of \<open>P\<close>.)  This
  holds for every order in which the cells are visited.
\<close>

theorem createPuzzle_unique:
  assumes "solved_grid G" and "81 < fuel"
  shows "\<exists>P g'. createPuzzle fuel G holes g = Some (P, g') \<and>
           countSolutions fuel P = Some (1, P) \<and>
           (\<forall>r < 9. \<forall>c < 9. P ! r ! c \<noteq> 0 \<longrightarrow> P ! r ! c = G ! r ! c) \<and>
           zeros P \<le> holes \<and>
           (zeros P = holes \<or>
            (\<forall>r < 9. \<forall>c < 9. P ! r ! c \<noteq> 0 \<longrightarrow>
               (\<exists>B'. countSolutions fuel (set_cell P r c 0) = Some (2, B')))) \<and>
           completions P = {G}"
proof -
  from createPuzzle_props [OF assms, of holes g] obtain P g' where
    P: "createPuzzle fuel G holes g = Some (P, g')" "wf9 P" "countSolutions fuel P = Some (1, P)"
    "agrees P G" "zeros P \<le> holes" by blast
  have u: "completions P = {G}" by (rule count_one_unique [OF assms(1) P(2) P(4) P(3) assms(2)])
  note m = createPuzzle_maximal [OF assms P(1) P(2) P(4)]
  from P(4) have a: "\<forall>r < 9. \<forall>c < 9. P ! r ! c \<noteq> 0 \<longrightarrow> P ! r ! c = G ! r ! c"
    by (simp add: agrees_def)
  from P(1) P(3) a P(5) m u show ?thesis by blast
qed

theorem createPuzzle_unique_witness:
  "solved_grid example_grid \<and>
   (\<exists>P g'. createPuzzle 82 example_grid 3 [7, 3, 11] = Some (P, g') \<and>
      countSolutions 82 P = Some (1, P) \<and>
      (\<forall>r < 9. \<forall>c < 9. P ! r ! c \<noteq> 0 \<longrightarrow> P ! r ! c = example_grid ! r ! c) \<and>
      zeros P \<le> 3 \<and>
      (zeros P = 3 \<or>
       (\<forall>r < 9. \<forall>c < 9. P ! r ! c \<noteq> 0 \<longrightarrow>
          (\<exists>B'. countSolutions 82 (set_cell P r c 0) = Some (2, B')))) \<and>
      completions P = {example_grid} \<and>
      P \<noteq> example_grid)"
proof -
  have h: "solved_grid example_grid" by code_simp
  have f: "(81::nat) < 82" by simp
  from createPuzzle_unique [OF h f, of 3 "[7, 3, 11]"] obtain P g' where
    P: "createPuzzle 82 example_grid 3 [7, 3, 11] = Some (P, g')"
      "countSolutions 82 P = Some (1, P)"
      "\<forall>r < 9. \<forall>c < 9. P ! r ! c \<noteq> 0 \<longrightarrow> P ! r ! c = example_grid ! r ! c"
      "zeros P \<le> 3"
      "zeros P = 3 \<or>
       (\<forall>r < 9. \<forall>c < 9. P ! r ! c \<noteq> 0 \<longrightarrow>
          (\<exists>B'. countSolutions 82 (set_cell P r c 0) = Some (2, B')))"
      "completions P = {example_grid}" by blast
  have ne: "P \<noteq> example_grid"
  proof
    assume eq: "P = example_grid"
    have z: "zeros example_grid \<noteq> 3" by code_simp
    have c: "example_grid ! 0 ! 0 \<noteq> 0" by code_simp
    have one: "countSolutions 82 (set_cell example_grid 0 0 0)
                 = Some (1, set_cell example_grid 0 0 0)" by code_simp
    from P(5) z eq have "\<forall>r < 9. \<forall>c < 9. example_grid ! r ! c \<noteq> 0 \<longrightarrow>
          (\<exists>B'. countSolutions 82 (set_cell example_grid r c 0) = Some (2, B'))" by simp
    with c have "\<exists>B'. countSolutions 82 (set_cell example_grid 0 0 0) = Some (2, B')" by simp
    with one show False by simp
  qed
  from h P ne show ?thesis by blast
qed

text \<open>
  C2.  \<^verbatim>\<open>generateSolvedSudokuGrid\<close>, called on the empty board, returns true whatever the
  shuffles are, and leaves a solved grid: every cell in 1..9, every row, column and box
  containing each of 1..9 exactly once.
\<close>

theorem generate_solved_grid:
  assumes "81 < fuel"
  shows "\<exists>G g'. generateSolvedSudokuGrid fuel (replicate 9 (replicate 9 0)) g = Some (True, G, g')
            \<and> solved_grid G"
  using assms by (rule generate_empty_board)

theorem generate_solved_grid_witness:
  "(81::nat) < 82 \<and>
   (\<exists>G g'. generateSolvedSudokuGrid 82 (replicate 9 (replicate 9 0)) [4, 0, 6, 2] = Some (True, G, g')
      \<and> solved_grid G)"
  using generate_solved_grid [of 82 "[4, 0, 6, 2]"] by simp

text \<open>
  C3.  On a 9x9 board and a position inside it, \<^verbatim>\<open>isValidPlacement\<close> returns false
  exactly when the value occurs at another cell of the row, of the column, or of the
  3x3 box that starts at row \<open>r div 3 * 3\<close> and column \<open>c div 3 * 3\<close>.  The function
  only reads the board: its model has no board among its results.
\<close>

theorem isValidPlacement_false_iff:
  assumes "wf9 B" and "r < 9" and "c < 9"
  shows "(isValidPlacement B v (r, c) = False) \<longleftrightarrow>
           (\<exists>j < 9. j \<noteq> c \<and> B ! r ! j = v) \<or>
           (\<exists>i < 9. i \<noteq> r \<and> B ! i ! c = v) \<or>
           (\<exists>i j. r div 3 * 3 \<le> i \<and> i \<le> r div 3 * 3 + 2 \<and>
                  c div 3 * 3 \<le> j \<and> j \<le> c div 3 * 3 + 2 \<and>
                  (i, j) \<noteq> (r, c) \<and> B ! i ! j = v)"
  unfolding isValidPlacement_iff occurs_elsewhere_def prod.case
  by (simp only: simp_thms Bex_def atLeastLessThan_iff atLeastAtMost_iff) auto

theorem isValidPlacement_false_iff_witness:
  "wf9 example_puzzle \<and> (0::nat) < 9 \<and> (1::nat) < 9 \<and>
   isValidPlacement example_puzzle 3 (0, 1) = False \<and>
   (\<exists>j < 9. j \<noteq> 1 \<and> example_puzzle ! 0 ! j = 3)"
proof -
  have h: "wf9 example_puzzle" by code_simp
  have e: "\<exists>j < 9. j \<noteq> 1 \<and> example_puzzle ! 0 ! j = (3::nat)"
    by (rule exI [of _ 2]) (simp add: example_puzzle_def)
  with isValidPlacement_false_iff [OF h, of 0 1 3] h show ?thesis by simp
qed

text \<open>
  C4.  On a board whose non-zero entries satisfy the Sudoku constraints,
  \<^verbatim>\<open>countSolutions\<close> returns the number of completions when that is 0 or 1, and 2 when
  there are two or more; it never returns more than 2.  When it returns 2 the board is
  left as the completion at which the count reached 2: the search went no further.
\<close>

theorem countSolutions_capped:
  assumes "valid_partial B" and "zeros B < fuel"
  shows "finite (completions B) \<and>
         (\<exists>n B'. countSolutions fuel B = Some (n, B') \<and>
           (card (completions B) \<le> 1 \<longrightarrow> n = card (completions B)) \<and>
           (2 \<le> card (completions B) \<longrightarrow> n = 2 \<and> B' \<in> completions B) \<and>
           n \<le> 2)"
proof -
  from assms(1) have wf: "wf9 B" by (simp add: valid_partial_def)
  from countSolutions_post [OF wf assms(2)] assms(1) obtain n B' where
    res: "countSolutions fuel B = Some (n, B')" and n: "n = min 2 (card (completions B))"
    and ab: "1 < n \<longrightarrow> B' \<in> completions B" by blast
  from n ab have "(card (completions B) \<le> 1 \<longrightarrow> n = card (completions B)) \<and>
           (2 \<le> card (completions B) \<longrightarrow> n = 2 \<and> B' \<in> completions B) \<and> n \<le> 2"
    by (auto simp: min_def)
  with res finite_completions [of B] show ?thesis by blast
qed

theorem countSolutions_capped_witness:
  "valid_partial twin_puzzle \<and> zeros twin_puzzle < 82 \<and>
   countSolutions 82 twin_puzzle = Some (2, twin_grid) \<and>
   2 \<le> card (completions twin_puzzle) \<and> twin_grid \<in> completions twin_puzzle \<and>
   countSolutions 82 example_puzzle = Some (1, example_puzzle) \<and>
   card (completions example_puzzle) = 1"
proof -
  note h1 = valid_partial_twin_puzzle
  have h2: "zeros twin_puzzle < 82" by code_simp
  have e: "countSolutions 82 twin_puzzle = Some (2, twin_grid)" by code_simp
  from countSolutions_capped [OF h1 h2] e
  have "(card (completions twin_puzzle) \<le> 1 \<longrightarrow> 2 = card (completions twin_puzzle)) \<and>
        (2 \<le> card (completions twin_puzzle) \<longrightarrow> twin_grid \<in> completions twin_puzzle)"
    by auto
  then have t: "2 \<le> card (completions twin_puzzle) \<and> twin_grid \<in> completions twin_puzzle"
    by (cases "card (completions twin_puzzle) \<le> 1") auto
  note g1 = valid_partial_example_puzzle
  have g2: "zeros example_puzzle < 82" by code_simp
  have f: "countSolutions 82 example_puzzle = Some (1, example_puzzle)" by code_simp
  from countSolutions_capped [OF g1 g2] f
  have "(card (completions example_puzzle) \<le> 1 \<longrightarrow> 1 = card (completions example_puzzle)) \<and>
        (2 \<le> card (completions example_puzzle) \<longrightarrow> (1::nat) = 2)"
    by auto
  then have u: "card (completions example_puzzle) = 1"
    by (cases "card (completions example_puzzle) \<le> 1") auto
  from h1 h2 e t f u show ?thesis by (intro conjI) simp_all
qed

text \<open>
  C5.  The engine terminates on every 9x9 board: a recursion depth of 82 is enough for
  \<^verbatim>\<open>generateSolvedSudokuGrid\<close>, \<^verbatim>\<open>countSolutions\<close> and \<^verbatim>\<open>createPuzzle\<close> to return.  On a
  solved grid, \<^verbatim>\<open>createPuzzle\<close> with 81 holes returns a board with exactly one
  completion.
\<close>

theorem engine_terminates:
  assumes "wf9 B" and "81 < fuel"
  shows "(\<exists>res. generateSolvedSudokuGrid fuel B g = Some res) \<and>
         (\<exists>res. countSolutions fuel B = Some res) \<and>
         (\<exists>res. createPuzzle fuel B holes g = Some res) \<and>
         (solved_grid B \<longrightarrow>
            (\<exists>P g'. createPuzzle fuel B 81 g = Some (P, g') \<and>
               countSolutions fuel P = Some (1, P) \<and> completions P = {B}))"
proof -
  have "\<exists>P g'. createPuzzle fuel B 81 g = Some (P, g') \<and>
               countSolutions fuel P = Some (1, P) \<and> completions P = {B}" if sol: "solved_grid B"
  proof -
    from createPuzzle_props [OF sol assms(2), of 81 g] obtain P g' where
      P: "createPuzzle fuel B 81 g = Some (P, g')" "wf9 P" "countSolutions fuel P = Some (1, P)"
      "agrees P B" by blast
    have "completions P = {B}" by (rule count_one_unique [OF sol P(2) P(4) P(3) assms(2)])
    with P show ?thesis by blast
  qed
  with generate_terminates [OF assms, of g] countSolutions_terminates [OF assms]
    createPuzzle_terminates [OF assms, of holes g]
  show ?thesis by blast
qed

theorem engine_terminates_witness:
  "wf9 example_grid \<and> solved_grid example_grid \<and>
   (\<exists>res. generateSolvedSudokuGrid 82 example_grid [2, 9] = Some res) \<and>
   (\<exists>res. countSolutions 82 example_grid = Some res) \<and>
   (\<exists>res. createPuzzle 82 example_grid 40 [2, 9] = Some res) \<and>
   (\<exists>P g'. createPuzzle 82 example_grid 81 [2, 9] = Some (P, g') \<and>
      countSolutions 82 P = Some (1, P) \<and> completions P = {example_grid})"
proof -
  have h1: "wf9 example_grid" by code_simp
  have h2: "solved_grid example_grid" by code_simp
  have h3: "(81::nat) < 82" by simp
  show ?thesis using h1 h2 engine_terminates [OF h1 h3, of "[2, 9]" 40] by simp
qed

text \<open>
  C6.  Whatever keys, number buttons, clear button and cell clicks follow, a cell that
  is non-zero in the initial puzzle keeps its value in the play state, and the initial
  puzzle stays as it is.  With such a cell selected, a key, a number button and the
  clear button return the session as it was.
\<close>

theorem given_cells_fixed:
  assumes "initialPuzzle s ! r ! c \<noteq> 0"
  shows "puzzleBoard (foldl handle_event s es) ! r ! c = puzzleBoard s ! r ! c \<and>
         initialPuzzle (foldl handle_event s es) = initialPuzzle s \<and>
         (selectedCell s = Some (r, c) \<longrightarrow>
            keydown key s = s \<and> num_btn_click v s = s \<and> clear_btn_click s = s)"
proof -
  have "keydown key s = s \<and> num_btn_click v s = s \<and> clear_btn_click s = s"
    if "selectedCell s = Some (r, c)"
    using given_noop [OF that assms] by simp
  with run_events_given [OF assms, of es] show ?thesis by blast
qed

theorem given_cells_fixed_witness:
  "initialPuzzle (example_session\<lparr>selectedCell := Some (0, 2)\<rparr>) ! 0 ! 2 \<noteq> 0 \<and>
   puzzleBoard (foldl handle_event (example_session\<lparr>selectedCell := Some (0, 2)\<rparr>)
       [KeyDown ''5'', CellClick (0, 0), NumBtn 7, CellClick (0, 2), ClearBtn]) ! 0 ! 2 = 3 \<and>
   keydown ''5'' (example_session\<lparr>selectedCell := Some (0, 2)\<rparr>)
     = example_session\<lparr>selectedCell := Some (0, 2)\<rparr>"
proof -
  let ?s = "example_session\<lparr>selectedCell := Some (0, 2)\<rparr>"
  have h: "initialPuzzle ?s ! 0 ! 2 \<noteq> 0" by (simp add: example_session_def example_puzzle_def)
  have p: "puzzleBoard ?s ! 0 ! 2 = 3" by (simp add: example_session_def example_puzzle_def)
  have sel: "selectedCell ?s = Some (0, 2)" by simp
  let ?es = "[KeyDown ''5'', CellClick (0, 0), NumBtn 7, CellClick (0, 2), ClearBtn]"
  note t = given_cells_fixed [OF h, of ?es "''5''" 0]
  from t have 1: "puzzleBoard (foldl handle_event ?s ?es) ! 0 ! 2 = puzzleBoard ?s ! 0 ! 2"
    by (rule conjunct1)
  from t sel have 2: "keydown ''5'' ?s = ?s" by blast
  from 1 p have 3: "puzzleBoard (foldl handle_event ?s ?es) ! 0 ! 2 = 3" by (simp only:)
  from h 3 2 show ?thesis by (intro conjI)
qed

text \<open>
  C7.  \<^verbatim>\<open>checkWinCondition\<close> ends the game with the congratulation exactly when the play
  state has no zero cell and equals the solved grid cell for cell; otherwise it returns
  with nothing changed, also on a full board with a cell that differs.
\<close>

theorem checkWinCondition_won_iff:
  "checkWinCondition s =
     (if (\<forall>i < 9. \<forall>j < 9. puzzleBoard s ! i ! j \<noteq> 0) \<and>
         (\<forall>i < 9. \<forall>j < 9. puzzleBoard s ! i ! j = solvedBoard s ! i ! j)
      then setStatusMessage ''Congratulations! You solved the puzzle!'' True (s\<lparr>gameActive := False\<rparr>)
      else s)"
proof -
  let ?W = "(\<forall>i < 9. \<forall>j < 9. puzzleBoard s ! i ! j \<noteq> 0) \<and>
         (\<forall>i < 9. \<forall>j < 9. puzzleBoard s ! i ! j = solvedBoard s ! i ! j)"
  let ?f = "find (\<lambda>(i, j). puzzleBoard s ! i ! j = 0 \<or> puzzleBoard s ! i ! j \<noteq> solvedBoard s ! i ! j)
                all_cells"
  have iff: "?f = None \<longleftrightarrow> ?W" by (rule find_win_None)
  show ?thesis
  proof (cases ?W)
    case True
    with iff have "?f = None" by blast
    then have "checkWinCondition s =
        setStatusMessage ''Congratulations! You solved the puzzle!'' True (s\<lparr>gameActive := False\<rparr>)"
      by (simp add: checkWinCondition_def)
    moreover from True have "(if ?W then setStatusMessage ''Congratulations! You solved the puzzle!'' True
        (s\<lparr>gameActive := False\<rparr>) else s) =
        setStatusMessage ''Congratulations! You solved the puzzle!'' True (s\<lparr>gameActive := False\<rparr>)"
      by (rule if_P)
    ultimately show ?thesis by (simp only:)
  next
    case False
    with iff have "?f \<noteq> None" by blast
    then obtain p where "?f = Some p" by blast
    then have "checkWinCondition s = s" by (simp add: checkWinCondition_def)
    moreover from False have "(if ?W then setStatusMessage ''Congratulations! You solved the puzzle!'' True
        (s\<lparr>gameActive := False\<rparr>) else s) = s"
      by (rule if_not_P)
    ultimately show ?thesis by (simp only:)
  qed
qed

theorem checkWinCondition_won_iff_witness:
  "gameActive (checkWinCondition (example_session\<lparr>puzzleBoard := example_grid\<rparr>)) = False \<and>
   checkWinCondition (example_session\<lparr>puzzleBoard := set_cell example_grid 0 0 2\<rparr>)
     = example_session\<lparr>puzzleBoard := set_cell example_grid 0 0 2\<rparr>"
proof -
  let ?won = "example_session\<lparr>puzzleBoard := example_grid\<rparr>"
  let ?bad = "example_session\<lparr>puzzleBoard := set_cell example_grid 0 0 2\<rparr>"
  have nz: "example_grid ! i ! j \<noteq> 0" if "i < 9" "j < 9" for i j
  proof -
    from that have "(i, j) \<in> set all_cells" by (simp add: set_all_cells)
    with solved_example_grid have "1 \<le> cell example_grid (i, j)"
      unfolding solved_grid_def by blast
    then show ?thesis by (simp add: cell_def)
  qed
  have a: "(\<forall>i < 9. \<forall>j < 9. puzzleBoard ?won ! i ! j \<noteq> 0) \<and>
         (\<forall>i < 9. \<forall>j < 9. puzzleBoard ?won ! i ! j = solvedBoard ?won ! i ! j)"
    using nz by (simp add: example_session_def)
  have "puzzleBoard ?bad ! 0 ! 0 \<noteq> solvedBoard ?bad ! 0 ! 0"
    by (simp add: example_session_def example_grid_def set_cell_def)
  then have b: "\<not> ((\<forall>i < 9. \<forall>j < 9. puzzleBoard ?bad ! i ! j \<noteq> 0) \<and>
         (\<forall>i < 9. \<forall>j < 9. puzzleBoard ?bad ! i ! j = solvedBoard ?bad ! i ! j))"
    by auto
  have "checkWinCondition ?won =
      setStatusMessage ''Congratulations! You solved the puzzle!'' True (?won\<lparr>gameActive := False\<rparr>)"
    using checkWinCondition_won_iff [of ?won] if_P [OF a] by (simp only:)
  then have 1: "gameActive (checkWinCondition ?won) = False"
    by (simp add: setStatusMessage_def)
  have 2: "checkWinCondition ?bad = ?bad"
    using checkWinCondition_won_iff [of ?bad] if_not_P [OF b] by (simp only:)
  from 1 2 show ?thesis by (intro conjI)
qed

text \<open>
  C8.  \<^verbatim>\<open>checkAnswers\<close> does not hand out the set of wrong user cells.  What it gives is
  the status message and the re-rendered board.  In the example game, with the wrong
  digit 2 entered at (0,0) the set is \<open>{(0,0)}\<close>, with 1 entered at (0,1) as well it
  is \<open>{(0,0), (0,1)}\<close>; the message is the same for both, and in the first no cell is
  marked incorrect on the board, the 2 having no clash in its row, column or box.
\<close>

theorem checkAnswers_set_counterexample:
  "error_positions (example_session\<lparr>puzzleBoard := set_cell example_puzzle 0 0 2\<rparr>) = {(0, 0)} \<and>
   error_positions
     (example_session\<lparr>puzzleBoard := set_cell (set_cell example_puzzle 0 0 2) 0 1 1\<rparr>)
     = {(0, 0), (0, 1)} \<and>
   statusMessage (checkAnswers (example_session\<lparr>puzzleBoard := set_cell example_puzzle 0 0 2\<rparr>))
     = statusMessage (checkAnswers
         (example_session\<lparr>puzzleBoard := set_cell (set_cell example_puzzle 0 0 2) 0 1 1\<rparr>)) \<and>
   renderBoard_incorrect (example_session\<lparr>puzzleBoard := set_cell example_puzzle 0 0 2\<rparr>)
     (set_cell example_puzzle 0 0 2) = []"
proof -
  let ?sA = "example_session\<lparr>puzzleBoard := set_cell example_puzzle 0 0 2\<rparr>"
  let ?sB = "example_session\<lparr>puzzleBoard := set_cell (set_cell example_puzzle 0 0 2) 0 1 1\<rparr>"
  have 1: "error_positions ?sA = {(0, 0)}" by code_simp
  have 2: "error_positions ?sB = {(0, 0), (0, 1)}" by code_simp
  have 3: "statusMessage (checkAnswers ?sA) = statusMessage (checkAnswers ?sB)" by code_simp
  have 4: "renderBoard_incorrect ?sA (set_cell example_puzzle 0 0 2) = []" by code_simp
  from 1 2 3 4 show ?thesis by (intro conjI)
qed

text \<open>
  C8, amended.  \<^verbatim>\<open>checkAnswers\<close> reports in the status message whether the set of
  positions that are zero in the initial puzzle, non-zero in the play state and
  different from the solved grid is non-empty, and changes no board.  Right after
  \<^verbatim>\<open>initializeGame\<close> that set is empty.
\<close>

theorem checkAnswers_reports:
  "statusMessage (checkAnswers s) =
     (if error_positions s \<noteq> {}
      then (''Some answers are incorrect. Keep trying!'', False)
      else (''All your answers are correct so far! Keep going!'', True)) \<and>
   puzzleBoard (checkAnswers s) = puzzleBoard s \<and>
   (81 < fuel \<longrightarrow>
      (\<exists>s' g'. initializeGame fuel holes g s = Some (s', g') \<and> error_positions s' = {}))"
proof -
  have 1: "statusMessage (checkAnswers s) =
     (if error_positions s \<noteq> {}
      then (''Some answers are incorrect. Keep trying!'', False)
      else (''All your answers are correct so far! Keep going!'', True))"
    by (simp add: checkAnswers_def hasErrors_iff setStatusMessage_def)
  have 2: "puzzleBoard (checkAnswers s) = puzzleBoard s"
    by (simp add: checkAnswers_def setStatusMessage_def Let_def)
  have 3: "\<exists>s' g'. initializeGame fuel holes g s = Some (s', g') \<and> error_positions s' = {}"
    if "81 < fuel"
  proof -
    from initializeGame_props [OF that, of holes g s] obtain s' g' where
      "initializeGame fuel holes g s = Some (s', g')" "puzzleBoard s' = initialPuzzle s'" by blast
    then show ?thesis using error_positions_fresh by blast
  qed
  from 1 2 3 show ?thesis by blast
qed

theorem checkAnswers_reports_witness:
  "(81::nat) < 82 \<and>
   statusMessage (checkAnswers (example_session\<lparr>puzzleBoard := set_cell example_puzzle 0 0 2\<rparr>))
     = (''Some answers are incorrect. Keep trying!'', False) \<and>
   statusMessage (checkAnswers example_session)
     = (''All your answers are correct so far! Keep going!'', True) \<and>
   (\<exists>s' g'. initializeGame 82 (Some 40) [3, 1] example_session = Some (s', g')
       \<and> error_positions s' = {})"
proof -
  let ?sA = "example_session\<lparr>puzzleBoard := set_cell example_puzzle 0 0 2\<rparr>"
  have a: "error_positions ?sA \<noteq> {}" by code_simp
  have b: "\<not> error_positions example_session \<noteq> {}" by code_simp
  have h: "(81::nat) < 82" by simp
  note tA = checkAnswers_reports [of ?sA 82 "Some 40" "[3, 1]"]
  note tB = checkAnswers_reports [of example_session 82 "Some 40" "[3, 1]"]
  from tA have "statusMessage (checkAnswers ?sA) =
     (if error_positions ?sA \<noteq> {}
      then (''Some answers are incorrect. Keep trying!'', False)
      else (''All your answers are correct so far! Keep going!'', True))" by (rule conjunct1)
  with if_P [OF a] have 1: "statusMessage (checkAnswers ?sA)
     = (''Some answers are incorrect. Keep trying!'', False)" by (simp only:)
  from tB have "statusMessage (checkAnswers example_session) =
     (if error_positions example_session \<noteq> {}
      then (''Some answers are incorrect. Keep trying!'', False)
      else (''All your answers are correct so far! Keep going!'', True))" by (rule conjunct1)
  with if_not_P [OF b] have 2: "statusMessage (checkAnswers example_session)
     = (''All your answers are correct so far! Keep going!'', True)" by (simp only:)
  from tB h have 3: "\<exists>s' g'. initializeGame 82 (Some 40) [3, 1] example_session = Some (s', g')
       \<and> error_positions s' = {}" by blast
  from h 1 2 3 show ?thesis by (intro conjI)
qed



text \<open>
  C10.  \<^verbatim>\<open>countSolutions\<close> writes into the board it is given: when it stops at a second
  solution the board is left at that solution, not as it was passed (it is restored
  only when the count stays below 2).  The probe of \<^verbatim>\<open>createPuzzle\<close> runs on newly
  allocated rows, so it changes no row that existed before, in particular none of the
  working puzzle, and \<^verbatim>\<open>createPuzzle\<close> over the store returns the board that the carving
  loop computes from the counts alone, leaving the board it was given as it was.
\<close>

theorem probe_leaves_puzzle:
  assumes "board_at h puzzle" and "valid_partial (read_board h puzzle)"
    and "zeros (read_board h puzzle) < fuel"
  shows "(\<exists>n h'. countSolutions_h fuel puzzle h = Some (n, h') \<and>
            (n \<le> 1 \<longrightarrow> read_board h' puzzle = read_board h puzzle) \<and>
            (1 < n \<longrightarrow> read_board h' puzzle \<in> completions (read_board h puzzle) \<and>
                      read_board h' puzzle \<noteq> read_board h puzzle)) \<and>
         (\<exists>n h'. probe_h fuel puzzle h = Some (n, h') \<and>
            (\<exists>b'. countSolutions fuel (read_board h puzzle) = Some (n, b')) \<and>
            (\<forall>a < length h. h' ! a = h ! a) \<and>
            read_board h' puzzle = read_board h puzzle) \<and>
         (case createPuzzle fuel (read_board h puzzle) holes g of
            None \<Rightarrow> createPuzzle_h fuel puzzle holes g h = None
          | Some (P, g') \<Rightarrow>
              (\<exists>carved h'. createPuzzle_h fuel puzzle holes g h = Some (carved, g', h') \<and>
                 read_board h' carved = P \<and> read_board h' puzzle = read_board h puzzle))"
proof -
  from assms(2) have wf: "wf9 (read_board h puzzle)" by (simp add: valid_partial_def)
  from countSolutions_h_post [OF assms] probe_h_frame [OF assms(1) wf assms(3)]
    createPuzzle_agree [OF assms(1), of fuel holes g]
  show ?thesis by (intro conjI)
qed

theorem probe_leaves_puzzle_witness:
  "board_at twin_puzzle [0, 1, 2, 3, 4, 5, 6, 7, 8] \<and>
   valid_partial (read_board twin_puzzle [0, 1, 2, 3, 4, 5, 6, 7, 8]) \<and>
   zeros (read_board twin_puzzle [0, 1, 2, 3, 4, 5, 6, 7, 8]) < 82 \<and>
   countSolutions_h 82 [0, 1, 2, 3, 4, 5, 6, 7, 8] twin_puzzle = Some (2, twin_grid) \<and>
   probe_h 82 [0, 1, 2, 3, 4, 5, 6, 7, 8] twin_puzzle = Some (2, twin_puzzle @ twin_grid) \<and>
   (\<exists>n h'. probe_h 82 [0, 1, 2, 3, 4, 5, 6, 7, 8] twin_puzzle = Some (n, h') \<and>
      (\<forall>a < length twin_puzzle. h' ! a = twin_puzzle ! a))"
proof -
  let ?refs = "[0, 1, 2, 3, 4, 5, 6, 7, 8] :: nat list"
  have h1: "board_at twin_puzzle ?refs" by code_simp
  have r: "read_board twin_puzzle ?refs = twin_puzzle" by code_simp
  have h2: "valid_partial (read_board twin_puzzle ?refs)"
    unfolding r by (rule valid_partial_twin_puzzle)
  have h3: "zeros (read_board twin_puzzle ?refs) < 82" by code_simp
  have c: "countSolutions_h 82 ?refs twin_puzzle = Some (2, twin_grid)" by code_simp
  have p: "probe_h 82 ?refs twin_puzzle = Some (2, twin_puzzle @ twin_grid)" by code_simp
  from probe_leaves_puzzle [OF h1 h2 h3, of 0 "[]"]
  have "\<exists>n h'. probe_h 82 ?refs twin_puzzle = Some (n, h') \<and>
      (\<forall>a < length twin_puzzle. h' ! a = twin_puzzle ! a)" by blast
  with h1 h2 h3 c p show ?thesis by (intro conjI)
qed

end
